theory Spec2Isabelle
  imports Main
begin

unbundle bit_operations_syntax

section \<open>The sum-of-products checker (checker.py)\<close>

text \<open>
  Conventions of the embedding.
  \<^item> A Python \<open>int\<close> is an \<open>int\<close>; a Python \<open>str\<close> is a \<open>string\<close>, each \<open>char\<close> standing
    for the code point of the same number (0 to 255).
  \<^item> A Python \<open>set\<close> of integers whose elements are iterated or counted (\<open>on_set\<close>,
    \<open>dc_set\<close>) is the list of its elements in iteration order; such a list has no
    repetition. A set that is only tested for membership is an \<open>int set\<close>.
  \<^item> An exception is the \<open>Inl\<close> of a sum type; \<open>Inr\<close> is normal completion.
  \<^item> The global random generator is an explicit stream of raw draws, threaded through
    every call that consumes it.
  \<^item> A generator is the list of the values it yields when run to its end, or the
    exception it raises on the way; its only consumer aborts on that exception.
\<close>

subsection \<open>Exceptions\<close>

datatype reason =
    NonEmptyAtZeroWidth
  | LengthMismatch int string
  | IllegalCharacter string
  | NegativeShiftCount
  | EmptyRange

datatype error = ValueError reason | IndexError

subsection \<open>Built-ins of Python used by the checker\<close>

text \<open>\<open>str.isspace\<close> on the code points below 256, and \<open>str.strip()\<close>.\<close>

definition isspace :: "char \<Rightarrow> bool" where
  "isspace c = (of_char c \<in> {9, 10, 11, 12, 13, 28, 29, 30, 31, 32, 133, 160 :: nat})"

definition strip :: "string \<Rightarrow> string" where
  "strip s = rev (dropWhile isspace (rev (dropWhile isspace s)))"

text \<open>\<open>str(i)\<close> for an integer: its decimal digits, with a minus sign when negative.\<close>

fun str_nat :: "nat \<Rightarrow> string" where
  "str_nat n =
     (if n < 10 then [char_of (48 + n)]
      else str_nat (n div 10) @ [char_of (48 + n mod 10)])"

declare str_nat.simps [simp del]

definition str_int :: "int \<Rightarrow> string" where
  "str_int i = (if i < 0 then CHR ''-'' # str_nat (nat (- i)) else str_nat (nat i))"

text \<open>\<open>1 << b\<close>: a negative shift count raises \<open>ValueError\<close>.\<close>

definition shl1 :: "int \<Rightarrow> error + int" where
  "shl1 b = (if b < 0 then Inl (ValueError NegativeShiftCount) else Inr (push_bit (nat b) 1))"

text \<open>\<open>xs[i] = v\<close>: a negative index counts from the end, an index out of range raises.\<close>

definition list_set :: "'a list \<Rightarrow> int \<Rightarrow> 'a \<Rightarrow> error + 'a list" where
  "list_set xs i v =
     (if 0 \<le> i \<and> i < int (length xs) then Inr (xs[nat i := v])
      else if i < 0 \<and> - int (length xs) \<le> i then Inr (xs[nat (int (length xs) + i) := v])
      else Inl IndexError)"

text \<open>
  \<open>random.randint(a, b)\<close> returns some integer of \<open>[a, b]\<close> and raises \<open>ValueError\<close> on
  an empty range. The generator is a stream of raw draws; a call consumes the next
  draw and reduces it into the range, so every value of the range can come out and no
  other.
\<close>

type_synonym rng = "nat \<Rightarrow> nat"

definition randint :: "int \<Rightarrow> int \<Rightarrow> rng \<Rightarrow> error + (int \<times> rng)" where
  "randint a b g =
     (if b < a then Inl (ValueError EmptyRange)
      else Inr (a + int (g 0 mod nat (b - a + 1)), \<lambda>i. g (Suc i)))"

subsection \<open>Reading and validating the SOP file\<close>

text \<open>
  \<open>read_sop_file\<close>: the file is the list of its lines as the iteration over it yields
  them; \<open>read_lines\<close> is the loop, with the list \<open>implicants\<close> built so far.
\<close>

fun read_lines :: "string list \<Rightarrow> int \<Rightarrow> string list \<Rightarrow> string list" where
  "read_lines [] n_bit implicants = implicants"
| "read_lines (ln # lns) n_bit implicants =
     (let line = strip ln in
      if line = ''''
      then (if n_bit = 0 then read_lines lns n_bit (implicants @ [''''])
            else read_lines lns n_bit implicants)
      else read_lines lns n_bit (implicants @ [line]))"

definition read_sop_file :: "string list \<Rightarrow> int \<Rightarrow> string list" where
  "read_sop_file lns n_bit = read_lines lns n_bit []"

text \<open>\<open>validate_implicant\<close>; \<open>check_chars\<close> is its loop over the characters.\<close>

fun check_chars :: "string \<Rightarrow> string \<Rightarrow> error + unit" where
  "check_chars [] impl = Inr ()"
| "check_chars (ch # chs) impl =
     (if ch \<notin> {CHR ''0'', CHR ''1'', CHR ''-''} then Inl (ValueError (IllegalCharacter impl))
      else check_chars chs impl)"

definition validate_implicant :: "string \<Rightarrow> int \<Rightarrow> error + unit" where
  "validate_implicant impl n_bit =
     (if n_bit = 0
      then (if impl \<noteq> '''' then Inl (ValueError NonEmptyAtZeroWidth) else Inr ())
      else if int (length impl) \<noteq> n_bit then Inl (ValueError (LengthMismatch n_bit impl))
      else check_chars impl impl)"

text \<open>The loop of \<open>main\<close> that validates every implicant in order.\<close>

fun validate_all :: "string list \<Rightarrow> int \<Rightarrow> error + unit" where
  "validate_all [] n_bit = Inr ()"
| "validate_all (impl # impls) n_bit =
     (case validate_implicant impl n_bit of
        Inl e \<Rightarrow> Inl e
      | Inr u \<Rightarrow> validate_all impls n_bit)"

subsection \<open>The minterm enumerator\<close>

text \<open>
  \<open>iter_implicant_minterms\<close>. \<open>scan_implicant\<close> is the first loop, over
  \<open>enumerate(impl)\<close>, with the index \<open>i\<close> and the values of \<open>base_val\<close> and
  \<open>free_positions\<close> so far. \<open>set_free_bits\<close> is the inner \<open>while\<close> loop for one mask and
  \<open>mask_loop\<close> the loop over \<open>range(1 << free_cnt)\<close>, collecting the values yielded.
\<close>

fun scan_implicant :: "int \<Rightarrow> int \<Rightarrow> string \<Rightarrow> int \<Rightarrow> int list \<Rightarrow> error + (int \<times> int list)" where
  "scan_implicant n_bit i [] base_val free_positions = Inr (base_val, free_positions)"
| "scan_implicant n_bit i (ch # chs) base_val free_positions =
     (let bitpos = n_bit - 1 - i in
      if ch = CHR ''1'' then
        (case shl1 bitpos of
           Inl e \<Rightarrow> Inl e
         | Inr b \<Rightarrow> scan_implicant n_bit (i + 1) chs (base_val OR b) free_positions)
      else if ch = CHR ''-'' then
        scan_implicant n_bit (i + 1) chs base_val (free_positions @ [bitpos])
      else scan_implicant n_bit (i + 1) chs base_val free_positions)"

function set_free_bits :: "int list \<Rightarrow> nat \<Rightarrow> int \<Rightarrow> int \<Rightarrow> nat \<Rightarrow> error + int" where
  "set_free_bits free_positions free_cnt v m j =
     (if j < free_cnt then
        (if m AND 1 \<noteq> 0 then
           (case shl1 (free_positions ! j) of
              Inl e \<Rightarrow> Inl e
            | Inr b \<Rightarrow> set_free_bits free_positions free_cnt (v OR b) (drop_bit 1 m) (j + 1))
         else set_free_bits free_positions free_cnt v (drop_bit 1 m) (j + 1))
      else Inr v)"
  by pat_completeness auto
termination
  by (relation "measure (\<lambda>(free_positions, free_cnt, v, m, j). free_cnt - j)") auto

declare set_free_bits.simps [simp del]

fun mask_loop :: "int list \<Rightarrow> nat \<Rightarrow> int \<Rightarrow> int list \<Rightarrow> error + int list" where
  "mask_loop free_positions free_cnt base_val [] = Inr []"
| "mask_loop free_positions free_cnt base_val (msk # msks) =
     (case set_free_bits free_positions free_cnt base_val msk 0 of
        Inl e \<Rightarrow> Inl e
      | Inr v \<Rightarrow>
          (case mask_loop free_positions free_cnt base_val msks of
             Inl e \<Rightarrow> Inl e
           | Inr vs \<Rightarrow> Inr (v # vs)))"

definition iter_implicant_minterms :: "string \<Rightarrow> int \<Rightarrow> error + int list" where
  "iter_implicant_minterms impl n_bit =
     (if n_bit = 0 then Inr [0]
      else
        (case scan_implicant n_bit 0 impl 0 [] of
           Inl e \<Rightarrow> Inl e
         | Inr (base_val, free_positions) \<Rightarrow>
             (let free_cnt = length free_positions
              in mask_loop free_positions free_cnt base_val (map int [0 ..< 2 ^ free_cnt]))))"

subsection \<open>Reservoir sampling and the literal count\<close>

text \<open>\<open>reservoir_add\<close> returns the sample list as the call leaves it, and the generator.\<close>

definition reservoir_add :: "'a list \<Rightarrow> int \<Rightarrow> int \<Rightarrow> 'a \<Rightarrow> rng \<Rightarrow> error + ('a list \<times> rng)" where
  "reservoir_add smp k total_seen item g =
     (if k \<le> 0 then Inr (smp, g)
      else if total_seen \<le> k then Inr (smp @ [item], g)
      else
        (case randint 1 total_seen g of
           Inl e \<Rightarrow> Inl e
         | Inr (j, g') \<Rightarrow>
             if j \<le> k then
               (case list_set smp (j - 1) item of
                  Inl e \<Rightarrow> Inl e
                | Inr smp' \<Rightarrow> Inr (smp', g'))
             else Inr (smp, g')))"

text \<open>\<open>count_literals\<close>: the inner loop over the characters and the outer one.\<close>

fun count_chars :: "string \<Rightarrow> int \<Rightarrow> int" where
  "count_chars [] c = c"
| "count_chars (ch # chs) c =
     (if ch = CHR ''0'' \<or> ch = CHR ''1'' then count_chars chs (c + 1) else count_chars chs c)"

fun count_impls :: "string list \<Rightarrow> int \<Rightarrow> int" where
  "count_impls [] c = c"
| "count_impls (impl # impls) c = count_impls impls (count_chars impl c)"

definition count_literals :: "string list \<Rightarrow> int" where
  "count_literals implicants = count_impls implicants 0"

subsection \<open>The checks of \<open>main\<close>\<close>

record args =
  quiet :: bool
  summary :: bool
  sample :: int

text \<open>The values of the locals of \<open>main\<close> when it reaches its first \<open>print\<close>.\<close>

record verdict =
  lit_count :: int
  fail_literal_product :: bool
  dup_count :: int
  dup_sample :: "string list"
  covered_on :: "int set"
  off_hit_count :: int
  off_hit_sample :: "int list"
  uncovered_count :: int
  uncovered_sample :: "int list"
  passed :: bool

text \<open>
  The duplicate loop over \<open>enumerate(implicants)\<close>: \<open>idx\<close> is the index of the head,
  \<open>seen\<close> the dictionary, \<open>dc\<close> and \<open>ds\<close> the values of \<open>dup_count\<close> and \<open>dup_sample\<close>.
\<close>

fun dup_loop ::
  "int \<Rightarrow> int \<Rightarrow> string list \<Rightarrow> (string \<rightharpoonup> int) \<Rightarrow> int \<Rightarrow> string list \<Rightarrow> rng
     \<Rightarrow> error + (int \<times> string list \<times> rng)" where
  "dup_loop k idx [] seen dc ds g = Inr (dc, ds, g)"
| "dup_loop k idx (impl # impls) seen dc ds g =
     (case seen impl of
        Some first \<Rightarrow>
          (case reservoir_add ds k (dc + 1)
                  (''line '' @ str_int first @ '' and line '' @ str_int idx @ '': '' @ impl) g of
             Inl e \<Rightarrow> Inl e
           | Inr (ds', g') \<Rightarrow> dup_loop k (idx + 1) impls seen (dc + 1) ds' g')
      | None \<Rightarrow> dup_loop k (idx + 1) impls (seen(impl \<mapsto> idx)) dc ds g)"

text \<open>
  The coverage loops: \<open>minterm_loop\<close> runs over the minterms of one implicant and
  \<open>implicant_loop\<close> over \<open>valid_implicants\<close>. The state is \<open>covered_on\<close>,
  \<open>off_hit_count\<close>, \<open>off_hit_sample\<close> and the generator.
\<close>

type_synonym cover_state = "int set \<times> int \<times> int list \<times> rng"

fun minterm_loop ::
  "int \<Rightarrow> int set \<Rightarrow> int set \<Rightarrow> int list \<Rightarrow> cover_state \<Rightarrow> error + cover_state" where
  "minterm_loop k on union_allowed [] st = Inr st"
| "minterm_loop k on union_allowed (m # ms) (cov, oc, os, g) =
     (if m \<in> on then minterm_loop k on union_allowed ms (insert m cov, oc, os, g)
      else if m \<notin> union_allowed then
        (case reservoir_add os k (oc + 1) m g of
           Inl e \<Rightarrow> Inl e
         | Inr (os', g') \<Rightarrow> minterm_loop k on union_allowed ms (cov, oc + 1, os', g'))
      else minterm_loop k on union_allowed ms (cov, oc, os, g))"

fun implicant_loop ::
  "int \<Rightarrow> int \<Rightarrow> int set \<Rightarrow> int set \<Rightarrow> string list \<Rightarrow> cover_state \<Rightarrow> error + cover_state" where
  "implicant_loop k n_bit on union_allowed [] st = Inr st"
| "implicant_loop k n_bit on union_allowed (impl # impls) st =
     (case iter_implicant_minterms impl n_bit of
        Inl e \<Rightarrow> Inl e
      | Inr ms \<Rightarrow>
          (case minterm_loop k on union_allowed ms st of
             Inl e \<Rightarrow> Inl e
           | Inr st' \<Rightarrow> implicant_loop k n_bit on union_allowed impls st'))"

text \<open>The two loops over \<open>on_set\<close> that count the uncovered terms, with and without sampling.\<close>

fun uncovered_sampled ::
  "int \<Rightarrow> int set \<Rightarrow> int list \<Rightarrow> int \<Rightarrow> int list \<Rightarrow> rng \<Rightarrow> error + (int \<times> int list \<times> rng)" where
  "uncovered_sampled k cov [] uc us g = Inr (uc, us, g)"
| "uncovered_sampled k cov (m # ms) uc us g =
     (if m \<notin> cov then
        (case reservoir_add us k (uc + 1) m g of
           Inl e \<Rightarrow> Inl e
         | Inr (us', g') \<Rightarrow> uncovered_sampled k cov ms (uc + 1) us' g')
      else uncovered_sampled k cov ms uc us g)"

fun uncovered_plain :: "int set \<Rightarrow> int list \<Rightarrow> int \<Rightarrow> int" where
  "uncovered_plain cov [] uc = uc"
| "uncovered_plain cov (m # ms) uc =
     (if m \<notin> cov then uncovered_plain cov ms (uc + 1) else uncovered_plain cov ms uc)"

text \<open>
  \<open>checks\<close> is \<open>main\<close> from the literal count to the verdict \<open>passed\<close>, on the parsed
  specification \<open>n_bit\<close>, \<open>on_set\<close>, \<open>dc_set\<close> and the validated implicants.
\<close>

definition valid_implicants :: "string list \<Rightarrow> string list" where
  "valid_implicants implicants = map strip (filter (\<lambda>impl. strip impl \<noteq> '''') implicants)"

definition checks ::
  "args \<Rightarrow> int \<Rightarrow> int list \<Rightarrow> int list \<Rightarrow> string list \<Rightarrow> rng \<Rightarrow> error + verdict" where
  "checks a n_bit on_set dc_set implicants g =
     (let union_allowed = set on_set \<union> set dc_set;
          lc = count_literals implicants;
          literal_product_expect = int (length on_set) * n_bit;
          flp = (n_bit > 0 \<and> int (length on_set) > 0 \<and> lc \<ge> literal_product_expect);
          k = max 0 (sample a)
      in
        case dup_loop k 0 implicants Map.empty 0 [] g of
          Inl e \<Rightarrow> Inl e
        | Inr (dc, ds, g1) \<Rightarrow>
            (case (if valid_implicants implicants \<noteq> []
                   then implicant_loop k n_bit (set on_set) union_allowed
                          (valid_implicants implicants) ({}, 0, [], g1)
                   else Inr ({}, 0, [], g1)) of
               Inl e \<Rightarrow> Inl e
             | Inr (cov, oc, os, g2) \<Rightarrow>
                 (case (if k > 0 then uncovered_sampled k cov on_set 0 [] g2
                        else Inr (uncovered_plain cov on_set 0, [], g2)) of
                    Inl e \<Rightarrow> Inl e
                  | Inr (uc, us, g3) \<Rightarrow>
                      Inr \<lparr> lit_count = lc, fail_literal_product = flp,
                            dup_count = dc, dup_sample = ds,
                            covered_on = cov, off_hit_count = oc, off_hit_sample = os,
                            uncovered_count = uc, uncovered_sample = us,
                            passed = (dc = 0 \<and> uc = 0 \<and> oc = 0 \<and> \<not> flp) \<rparr>)))"

subsection \<open>The report, \<open>main\<close> and the top level\<close>

text \<open>
  \<open>str\<close> of a list: the \<open>repr\<close> of its elements between brackets. The only strings so
  rendered are the duplicate samples, made of digits, fixed words and an implicant, and
  the \<open>repr\<close> of such a string is the string between apostrophes.
\<close>

fun join :: "string \<Rightarrow> string list \<Rightarrow> string" where
  "join sep [] = ''''"
| "join sep [x] = x"
| "join sep (x # y # ys) = x @ sep @ join sep (y # ys)"

definition repr_str :: "string \<Rightarrow> string" where
  "repr_str s = [CHR 0x27] @ s @ [CHR 0x27]"

definition str_list :: "('a \<Rightarrow> string) \<Rightarrow> 'a list \<Rightarrow> string" where
  "str_list r xs = ''['' @ join '', '' (map r xs) @ '']''"

definition result_word :: "bool \<Rightarrow> string" where
  "result_word p = (if p then ''PASS'' else ''FAIL'')"

definition header_lines :: "int \<Rightarrow> int list \<Rightarrow> int list \<Rightarrow> string list \<Rightarrow> verdict \<Rightarrow> string list" where
  "header_lines n_bit on_set dc_set implicants v =
     [''bit width: '' @ str_int n_bit,
      ''on-set size: '' @ str_int (int (length on_set)),
      ''dc-set size: '' @ str_int (int (length dc_set)),
      ''SOP implicants: '' @ str_int (int (length implicants)),
      ''SOP literals: '' @ str_int (lit_count v)]"

definition detail_lines :: "int \<Rightarrow> int \<Rightarrow> int list \<Rightarrow> verdict \<Rightarrow> string list" where
  "detail_lines k n_bit on_set v =
     [replicate 60 CHR ''-'',
      (if dup_count v \<noteq> 0 then
         (if k > 0 \<and> dup_sample v \<noteq> [] then
            ''[ERROR] duplicate implicants found ('' @ str_int (dup_count v) @ ''). examples: ''
              @ str_list repr_str (dup_sample v)
          else ''[ERROR] duplicate implicants found ('' @ str_int (dup_count v) @ '').'')
       else ''[OK] no duplicate implicants.''),
      replicate 60 CHR ''-'']
     @ (if fail_literal_product v then
          [''[ERROR] literal count >= |on-set| * n_bit ('' @ str_int (lit_count v) @ '' >= ''
             @ str_int (int (length on_set)) @ '' * '' @ str_int n_bit @ '').'']
        else
          [''[OK] literal count < |on-set| * n_bit.'']
          @ (if int (length on_set) = 0 then [''[NOTE] |on-set| = 0 (trivially satisfied).'']
             else []))
     @ [replicate 60 CHR ''-'',
        (if uncovered_count v \<noteq> 0 then
           (if k > 0 \<and> uncovered_sample v \<noteq> [] then
              ''[ERROR] on-set not covered ('' @ str_int (uncovered_count v)
                @ '' terms). examples: '' @ str_list str_int (uncovered_sample v)
            else ''[ERROR] on-set not covered ('' @ str_int (uncovered_count v) @ '' terms).'')
         else ''[OK] all on-set terms covered.''),
        replicate 60 CHR ''-'',
        (if off_hit_count v \<noteq> 0 then
           (if k > 0 \<and> off_hit_sample v \<noteq> [] then
              ''[ERROR] SOP covers off-set ('' @ str_int (off_hit_count v)
                @ '' terms). examples: '' @ str_list str_int (off_hit_sample v)
            else ''[ERROR] SOP covers off-set ('' @ str_int (off_hit_count v) @ '' terms).'')
         else ''[OK] SOP does not cover off-set.'')]"

text \<open>\<open>report\<close> is \<open>main\<close> from its first \<open>print\<close> on: the lines written to standard output.\<close>

definition report ::
  "args \<Rightarrow> int \<Rightarrow> int list \<Rightarrow> int list \<Rightarrow> string list \<Rightarrow> verdict \<Rightarrow> string list" where
  "report a n_bit on_set dc_set implicants v =
     (if quiet a then
        (if passed v then [''PASS '' @ str_int (lit_count v)] else [''FAIL''])
      else if summary a then
        header_lines n_bit on_set dc_set implicants v
        @ [''result: '' @ result_word (passed v)]
      else
        [replicate 60 CHR ''='']
        @ header_lines n_bit on_set dc_set implicants v
        @ detail_lines (max 0 (sample a)) n_bit on_set v
        @ [replicate 60 CHR ''='', ''[RESULT] '' @ result_word (passed v)])"

text \<open>
  \<open>main\<close>, from the parsed specification on. Every \<open>print\<close> of \<open>main\<close> comes after the
  last statement that can raise, so a run of \<open>main\<close> either raises with nothing printed
  or returns the lines it printed.
\<close>

definition main ::
  "args \<Rightarrow> int \<Rightarrow> int list \<Rightarrow> int list \<Rightarrow> string list \<Rightarrow> rng \<Rightarrow> error + string list" where
  "main a n_bit on_set dc_set sop_lines g =
     (let implicants = read_sop_file sop_lines n_bit
      in case validate_all implicants n_bit of
           Inl e \<Rightarrow> Inl e
         | Inr u \<Rightarrow>
             (case checks a n_bit on_set dc_set implicants g of
                Inl e \<Rightarrow> Inl e
              | Inr v \<Rightarrow> Inr (report a n_bit on_set dc_set implicants v)))"

text \<open>
  The top level catches every exception, writes it after the prefix \<open>[EXCEPTION]\<close> to
  the error stream and exits with status 1. \<open>stderr\<close> lists the exceptions so written.
\<close>

record outcome =
  stdout :: "string list"
  stderr :: "error list"
  exit_code :: int

definition run ::
  "args \<Rightarrow> int \<Rightarrow> int list \<Rightarrow> int list \<Rightarrow> string list \<Rightarrow> rng \<Rightarrow> outcome" where
  "run a n_bit on_set dc_set sop_lines g =
     (case main a n_bit on_set dc_set sop_lines g of
        Inl e \<Rightarrow> \<lparr> stdout = [], stderr = [e], exit_code = 1 \<rparr>
      | Inr out \<Rightarrow> \<lparr> stdout = out, stderr = [], exit_code = 0 \<rparr>)"

subsection \<open>Notions used to state the properties\<close>

text \<open>
  The number of free positions of an implicant, and membership in the cube it denotes:
  the integers of \<open>[0, 2 ^ n)\<close> whose bits agree with the fixed positions, position 0
  of the string being the most significant bit.
\<close>

definition free_count :: "string \<Rightarrow> nat" where
  "free_count impl = length (filter (\<lambda>ch. ch = CHR ''-'') impl)"

definition in_cube :: "string \<Rightarrow> int \<Rightarrow> bool" where
  "in_cube impl v \<longleftrightarrow>
     0 \<le> v \<and> v < 2 ^ length impl \<and>
     list_all (\<lambda>i. (impl ! i = CHR ''0'' \<longrightarrow> \<not> bit v (length impl - 1 - i)) \<and>
                   (impl ! i = CHR ''1'' \<longrightarrow> bit v (length impl - 1 - i)))
       [0 ..< length impl]"

text \<open>
  The enumeration events of a solution, as the specification has them: the pairs of an
  implicant of the solution, once per occurrence and the zero-width empty implicant
  included, and a minterm that the enumerator yields for it. \<open>off_set_events\<close> are the
  events whose minterm is in neither the on-set nor the don't-care set, and
  \<open>covered_terms\<close> the on-set terms that some event reaches. \<open>events_of\<close> lists the
  events of a list of implicants in order.
\<close>

definition events_of :: "string list \<Rightarrow> int \<Rightarrow> (string \<times> int) list" where
  "events_of impls n_bit =
     concat (map (\<lambda>impl. case iter_implicant_minterms impl n_bit of
                           Inl e \<Rightarrow> []
                         | Inr ms \<Rightarrow> map (Pair impl) ms) impls)"

definition enumeration_events :: "string list \<Rightarrow> int \<Rightarrow> (string \<times> int) list" where
  "enumeration_events implicants n_bit = events_of implicants n_bit"

definition off_set_events ::
  "string list \<Rightarrow> int \<Rightarrow> int list \<Rightarrow> int list \<Rightarrow> (string \<times> int) list" where
  "off_set_events implicants n_bit on_set dc_set =
     filter (\<lambda>(impl, m). m \<notin> set on_set \<and> m \<notin> set dc_set)
       (enumeration_events implicants n_bit)"

definition covered_terms :: "string list \<Rightarrow> int \<Rightarrow> int list \<Rightarrow> int set" where
  "covered_terms implicants n_bit on_set =
     snd ` set (enumeration_events implicants n_bit) \<inter> set on_set"

text \<open>
  What the coverage loop of \<open>main\<close> goes through instead: the events of
  \<open>valid_implicants\<close> only. \<open>loop_off_events\<close> and \<open>loop_covered\<close> are the closed forms
  of the off-set hits it counts and of the set it marks covered, used in the proofs.
\<close>

definition loop_events :: "string list \<Rightarrow> int \<Rightarrow> (string \<times> int) list" where
  "loop_events implicants n_bit = events_of (valid_implicants implicants) n_bit"

definition loop_off_events ::
  "string list \<Rightarrow> int \<Rightarrow> int list \<Rightarrow> int list \<Rightarrow> (string \<times> int) list" where
  "loop_off_events implicants n_bit on_set dc_set =
     filter (\<lambda>(impl, m). m \<notin> set on_set \<and> m \<notin> set dc_set) (loop_events implicants n_bit)"

definition loop_covered :: "string list \<Rightarrow> int \<Rightarrow> int list \<Rightarrow> int set" where
  "loop_covered implicants n_bit on_set =
     snd ` set (loop_events implicants n_bit) \<inter> set on_set"

text \<open>An implicant that the specification calls invalid at a bit width.\<close>

definition invalid_implicant :: "string \<Rightarrow> int \<Rightarrow> bool" where
  "invalid_implicant impl n_bit \<longleftrightarrow>
     int (length impl) \<noteq> n_bit \<or>
     (\<exists>ch\<in>set impl. ch \<notin> {CHR ''0'', CHR ''1'', CHR ''-''}) \<or>
     (n_bit = 0 \<and> impl \<noteq> [])"

text \<open>
  Closed forms of what \<open>scan_implicant\<close> adds to \<open>free_positions\<close> and to \<open>base_val\<close>,
  used in the proofs only.
\<close>

fun free_of :: "int \<Rightarrow> int \<Rightarrow> string \<Rightarrow> int list" where
  "free_of n i [] = []"
| "free_of n i (ch # chs) = (if ch = CHR ''-'' then [n - 1 - i] else []) @ free_of n (i + 1) chs"

fun base_of :: "int \<Rightarrow> int \<Rightarrow> string \<Rightarrow> int" where
  "base_of n i [] = 0"
| "base_of n i (ch # chs) =
     (if ch = CHR ''1'' then push_bit (nat (n - 1 - i)) 1 else 0) OR base_of n (i + 1) chs"

section \<open>Properties\<close>

subsection \<open>Reading the SOP file\<close>

lemma read_lines_acc:
  "read_lines lns n_bit acc = acc @ read_lines lns n_bit []"
proof (induction lns arbitrary: acc)
  case Nil
  show ?case by simp
next
  case (Cons ln lns)
  have a: "read_lines lns n_bit (acc @ [x]) = acc @ [x] @ read_lines lns n_bit []" for x
    using Cons.IH [of "acc @ [x]"] by simp
  have b: "read_lines lns n_bit [x] = [x] @ read_lines lns n_bit []" for x
    using Cons.IH [of "[x]"] by simp
  consider (blank0) "strip ln = []" "n_bit = 0" | (blank) "strip ln = []" "n_bit \<noteq> 0"
    | (line) "strip ln \<noteq> []" by blast
  then show ?case
  proof cases
    case blank0
    then show ?thesis using a [of "[]"] b [of "[]"] by simp
  next
    case blank
    then show ?thesis using Cons.IH [of acc] by simp
  next
    case line
    then show ?thesis using a [of "strip ln"] b [of "strip ln"] by (simp add: Let_def)
  qed
qed

lemma read_lines_append:
  "read_lines (xs @ ys) n_bit acc = read_lines ys n_bit (read_lines xs n_bit acc)"
proof (induction xs arbitrary: acc)
  case Nil
  show ?case by simp
next
  case (Cons ln xs)
  show ?case
    using Cons.IH by (cases "strip ln = []"; cases "n_bit = 0"; simp add: Let_def)
qed

lemma read_sop_file_append:
  "read_sop_file (xs @ ys) n_bit = read_sop_file xs n_bit @ read_sop_file ys n_bit"
  unfolding read_sop_file_def
  using read_lines_acc [of ys n_bit "read_lines xs n_bit []"]
  by (simp add: read_lines_append)

lemma read_sop_file_single:
  "read_sop_file [ln] n_bit =
     (if strip ln = [] then (if n_bit = 0 then [[]] else []) else [strip ln])"
  by (simp add: read_sop_file_def Let_def)

text \<open>
  C7. Wherever a line that is blank after trimming stands in the SOP file, the
  implicants read are those of the lines before it, then the empty implicant exactly
  when the bit width is 0 and nothing otherwise, then those of the lines after it. So a
  blank line is recorded as the empty implicant if and only if the bit width is 0, and
  is skipped when the bit width is not 0; reading never fails.
\<close>

theorem read_sop_file_blank_line:
  assumes "strip ln = ''''"
  shows "read_sop_file (before @ [ln] @ after) n_bit =
           read_sop_file before n_bit @ (if n_bit = 0 then [''''] else []) @
           read_sop_file after n_bit"
proof -
  have "read_sop_file [ln] n_bit = (if n_bit = 0 then [[]] else [])"
    using assms by (simp add: read_sop_file_single)
  then show ?thesis
    by (simp only: read_sop_file_append)
qed

theorem read_sop_file_blank_line_witness:
  "strip '' \<newline>'' = '''' \<and>
   read_sop_file [''01\<newline>'', '' \<newline>'', ''1-\<newline>''] 2 = [''01'', ''1-''] \<and>
   read_sop_file ['' \<newline>''] 0 = ['''']"
proof -
  have s: "strip '' \<newline>'' = ''''"
    by (simp add: strip_def isspace_def)
  have s1: "strip ''01\<newline>'' = ''01''" and s2: "strip ''1-\<newline>'' = ''1-''"
    by (simp_all add: strip_def isspace_def)
  have a: "read_sop_file ([''01\<newline>''] @ ['' \<newline>''] @ [''1-\<newline>'']) 2 = [''01'', ''1-'']"
    using read_sop_file_blank_line [OF s, of "[''01\<newline>'']" "[''1-\<newline>'']" 2]
    by (simp add: read_sop_file_single s1 s2)
  have b: "read_sop_file ([] @ ['' \<newline>''] @ []) 0 = ['''']"
    using read_sop_file_blank_line [OF s, of "[]" "[]" 0]
    by (simp add: read_sop_file_def)
  show ?thesis using s a b by simp
qed


subsection \<open>The minterm enumerator\<close>

lemma scan_implicant_closed:
  "i + int (length chs) \<le> n \<Longrightarrow>
   scan_implicant n i chs b f = Inr (b OR base_of n i chs, f @ free_of n i chs)"
proof (induction chs arbitrary: i b f)
  case Nil
  show ?case by simp
next
  case (Cons ch chs)
  have le: "(i + 1) + int (length chs) \<le> n" and pos: "\<not> n - 1 - i < 0"
    using Cons.prems by simp_all
  show ?case
    using pos by (simp add: Cons.IH [OF le] shl1_def Let_def or.assoc)
qed

lemma free_of_length:
  "length (free_of n i chs) = length (filter (\<lambda>c. c = CHR ''-'') chs)"
  by (induction chs arbitrary: i) simp_all

lemma free_of_set:
  "set (free_of n i chs) = {n - 1 - i - int t | t. t < length chs \<and> chs ! t = CHR ''-''}"
proof (induction chs arbitrary: i)
  case Nil
  show ?case by simp
next
  case (Cons ch chs)
  have shift: "{n - 1 - (i + 1) - int t | t. t < length chs \<and> chs ! t = CHR ''-''}
      = {n - 1 - i - int t | t. 0 < t \<and> t < Suc (length chs) \<and> (ch # chs) ! t = CHR ''-''}"
    (is "?A = ?B")
  proof
    show "?A \<subseteq> ?B"
    proof
      fix x assume "x \<in> ?A"
      then obtain t where "x = n - 1 - (i + 1) - int t" "t < length chs" "chs ! t = CHR ''-''"
        by blast
      then have "x = n - 1 - i - int (Suc t) \<and> 0 < Suc t \<and> Suc t < Suc (length chs)
          \<and> (ch # chs) ! Suc t = CHR ''-''" by simp
      then show "x \<in> ?B" by blast
    qed
    show "?B \<subseteq> ?A"
    proof
      fix x assume "x \<in> ?B"
      then obtain t where t: "x = n - 1 - i - int t" "0 < t" "t < Suc (length chs)"
        "(ch # chs) ! t = CHR ''-''" by blast
      then obtain t' where "t = Suc t'" by (cases t) simp_all
      with t have "x = n - 1 - (i + 1) - int t' \<and> t' < length chs \<and> chs ! t' = CHR ''-''"
        by simp
      then show "x \<in> ?A" by blast
    qed
  qed
  have split: "{n - 1 - i - int t | t. t < length (ch # chs) \<and> (ch # chs) ! t = CHR ''-''}
      = (if ch = CHR ''-'' then {n - 1 - i} else {}) \<union> ?B"
    (is "?C = ?D")
  proof
    show "?C \<subseteq> ?D"
    proof
      fix x assume "x \<in> ?C"
      then obtain t where t: "x = n - 1 - i - int t" "t < length (ch # chs)"
        "(ch # chs) ! t = CHR ''-''" by blast
      show "x \<in> ?D"
      proof (cases t)
        case 0
        with t show ?thesis by simp
      next
        case (Suc t')
        with t have "x = n - 1 - i - int t \<and> 0 < t \<and> t < Suc (length chs) \<and> (ch # chs) ! t = CHR ''-''"
          by simp
        then have "x \<in> ?B" by blast
        then show ?thesis by simp
      qed
    qed
    show "?D \<subseteq> ?C"
    proof
      fix x assume "x \<in> ?D"
      then consider "ch = CHR ''-''" "x = n - 1 - i" | "x \<in> ?B"
        by (auto split: if_splits)
      then show "x \<in> ?C"
      proof cases
        case 1
        then have "x = n - 1 - i - int 0 \<and> 0 < length (ch # chs) \<and> (ch # chs) ! 0 = CHR ''-''"
          by simp
        then show ?thesis by blast
      next
        case 2
        then obtain t where "x = n - 1 - i - int t" "0 < t" "t < Suc (length chs)"
          "(ch # chs) ! t = CHR ''-''" by blast
        then have "x = n - 1 - i - int t \<and> t < length (ch # chs) \<and> (ch # chs) ! t = CHR ''-''"
          by simp
        then show ?thesis by blast
      qed
    qed
  qed
  have "set (free_of n i (ch # chs)) = (if ch = CHR ''-'' then {n - 1 - i} else {}) \<union> ?A"
    by (simp add: Cons.IH)
  then show ?case
    unfolding split shift .
qed

lemma free_of_upper: "p \<in> set (free_of n i chs) \<Longrightarrow> p \<le> n - 1 - i"
  by (auto simp: free_of_set)

lemma free_of_distinct: "distinct (free_of n i chs)"
proof (induction chs arbitrary: i)
  case Nil
  show ?case by simp
next
  case (Cons ch chs)
  have "n - 1 - i \<notin> set (free_of n (i + 1) chs)"
    using free_of_upper [of "n - 1 - i" n "i + 1" chs] by auto
  then show ?case by (simp add: Cons.IH)
qed

lemma base_of_bit:
  "i + int (length chs) \<le> n \<Longrightarrow>
   bit (base_of n i chs) p \<longleftrightarrow> (\<exists>t<length chs. chs ! t = CHR ''1'' \<and> int p = n - 1 - i - int t)"
proof (induction chs arbitrary: i)
  case Nil
  show ?case by simp
next
  case (Cons ch chs)
  have le: "(i + 1) + int (length chs) \<le> n" and pos: "0 \<le> n - 1 - i"
    using Cons.prems by simp_all
  have hd: "bit (push_bit (nat (n - 1 - i)) (1::int)) p \<longleftrightarrow> int p = n - 1 - i"
    using pos by (auto simp: bit_exp_iff)
  have ex: "(\<exists>t<length (ch # chs). (ch # chs) ! t = CHR ''1'' \<and> int p = n - 1 - i - int t) \<longleftrightarrow>
      (ch = CHR ''1'' \<and> int p = n - 1 - i) \<or>
      (\<exists>t<length chs. chs ! t = CHR ''1'' \<and> int p = n - 1 - (i + 1) - int t)"
    by (auto simp: less_Suc_eq_0_disj)
  show ?case
    unfolding ex using hd by (simp add: bit_or_iff Cons.IH [OF le])
qed


lemma set_free_bits_bits:
  assumes "\<forall>x\<in>set fp. 0 \<le> x" and "cnt = length fp" and "j \<le> cnt"
  shows "\<exists>v'. set_free_bits fp cnt v m j = Inr v' \<and>
           (\<forall>p. bit v' p \<longleftrightarrow>
              bit v p \<or> (\<exists>t. j \<le> t \<and> t < cnt \<and> bit m (t - j) \<and> fp ! t = int p))"
  using assms
proof (induction fp cnt v m j rule: set_free_bits.induct)
  case (1 fp cnt v m j)
  show ?case
  proof (cases "j < cnt")
    case False
    then have "set_free_bits fp cnt v m j = Inr v"
      by (simp add: set_free_bits.simps [of fp cnt v m j])
    moreover have "\<not> (\<exists>t. j \<le> t \<and> t < cnt \<and> bit m (t - j) \<and> fp ! t = int p)" for p
      using False by auto
    ultimately show ?thesis by blast
  next
    case True
    then have nonneg: "0 \<le> fp ! j" and le: "j + 1 \<le> cnt"
      using "1.prems" by simp_all
    have odd: "m AND 1 \<noteq> 0 \<longleftrightarrow> bit m 0"
      by (simp add: and_one_eq bit_0 mod_2_eq_odd)
    have drop: "bit (drop_bit 1 m) (t - (j + 1)) \<longleftrightarrow> bit m (t - j)" if "j + 1 \<le> t" for t
      using that by (simp add: bit_drop_bit_eq Suc_diff_Suc)
    have range: "(\<exists>t. j \<le> t \<and> t < cnt \<and> bit m (t - j) \<and> fp ! t = int p) \<longleftrightarrow>
        (bit m 0 \<and> fp ! j = int p) \<or>
        (\<exists>t. j + 1 \<le> t \<and> t < cnt \<and> bit (drop_bit 1 m) (t - (j + 1)) \<and> fp ! t = int p)"
      (is "?L \<longleftrightarrow> ?R") for p
    proof
      assume ?L
      then obtain t where t: "j \<le> t" "t < cnt" "bit m (t - j)" "fp ! t = int p" by blast
      show ?R
      proof (cases "t = j")
        case True
        with t show ?thesis by simp
      next
        case False
        with t have "j + 1 \<le> t" by simp
        with t drop [of t] show ?thesis by blast
      qed
    next
      assume ?R
      then show ?L
      proof
        assume "bit m 0 \<and> fp ! j = int p"
        with True have "j \<le> j \<and> j < cnt \<and> bit m (j - j) \<and> fp ! j = int p" by simp
        then show ?L by blast
      next
        assume "\<exists>t. j + 1 \<le> t \<and> t < cnt \<and> bit (drop_bit 1 m) (t - (j + 1)) \<and> fp ! t = int p"
        then obtain t where t: "j + 1 \<le> t" "t < cnt" "bit (drop_bit 1 m) (t - (j + 1))"
          "fp ! t = int p" by blast
        with drop [of t] have "j \<le> t \<and> t < cnt \<and> bit m (t - j) \<and> fp ! t = int p" by simp
        then show ?L by blast
      qed
    qed
    show ?thesis
    proof (cases "bit m 0")
      case b: True
      have sh: "shl1 (fp ! j) = Inr (push_bit (nat (fp ! j)) 1)"
        using nonneg by (simp add: shl1_def)
      from "1.IH"(1) [OF True _ sh "1.prems"(1,2) le] b odd
      obtain v' where v': "set_free_bits fp cnt (v OR push_bit (nat (fp ! j)) 1) (drop_bit 1 m) (j + 1) = Inr v'"
        "\<forall>p. bit v' p \<longleftrightarrow> bit (v OR push_bit (nat (fp ! j)) 1) p \<or>
           (\<exists>t. j + 1 \<le> t \<and> t < cnt \<and> bit (drop_bit 1 m) (t - (j + 1)) \<and> fp ! t = int p)"
        by blast
      have unfold: "set_free_bits fp cnt v m j = Inr v'"
        using True b odd sh v'(1) by (simp add: set_free_bits.simps [of fp cnt v m j])
      have pb: "bit (push_bit (nat (fp ! j)) (1::int)) p \<longleftrightarrow> fp ! j = int p" for p
        using nonneg by (auto simp: bit_exp_iff)
      have "bit v' p \<longleftrightarrow> bit v p \<or> (\<exists>t. j \<le> t \<and> t < cnt \<and> bit m (t - j) \<and> fp ! t = int p)" for p
        unfolding range [of p] using v'(2) b pb [of p] by (auto simp: bit_or_iff)
      with unfold show ?thesis by blast
    next
      case b: False
      from "1.IH"(2) [OF True _ "1.prems"(1,2) le] b odd
      obtain v' where v': "set_free_bits fp cnt v (drop_bit 1 m) (j + 1) = Inr v'"
        "\<forall>p. bit v' p \<longleftrightarrow> bit v p \<or>
           (\<exists>t. j + 1 \<le> t \<and> t < cnt \<and> bit (drop_bit 1 m) (t - (j + 1)) \<and> fp ! t = int p)"
        by blast
      have unfold: "set_free_bits fp cnt v m j = Inr v'"
        using True b odd v'(1) by (simp add: set_free_bits.simps [of fp cnt v m j])
      have "bit v' p \<longleftrightarrow> bit v p \<or> (\<exists>t. j \<le> t \<and> t < cnt \<and> bit m (t - j) \<and> fp ! t = int p)" for p
        unfolding range [of p] using v'(2) b by auto
      with unfold show ?thesis by blast
    qed
  qed
qed

lemma mask_loop_map:
  "\<forall>m\<in>set msks. \<exists>v. set_free_bits fp cnt b m 0 = Inr v \<Longrightarrow>
   mask_loop fp cnt b msks = Inr (map (\<lambda>m. projr (set_free_bits fp cnt b m 0)) msks)"
  by (induction msks) auto

lemma free_of_nth:
  assumes "int (length impl) = n" and "s < length (free_of n 0 impl)"
  shows "\<exists>t<length impl. impl ! t = CHR ''-'' \<and> free_of n 0 impl ! s = int (length impl - 1 - t)"
proof -
  have "free_of n 0 impl ! s \<in> set (free_of n 0 impl)"
    using assms(2) by simp
  then obtain t where t: "t < length impl" "impl ! t = CHR ''-''"
      "free_of n 0 impl ! s = n - 1 - 0 - int t"
    unfolding free_of_set by blast
  then have "free_of n 0 impl ! s = int (length impl - 1 - t)"
    using assms(1) by auto
  with t show ?thesis by blast
qed

lemma free_of_has:
  assumes "int (length impl) = n" and "t < length impl" and "impl ! t = CHR ''-''"
  shows "\<exists>s<length (free_of n 0 impl). free_of n 0 impl ! s = int (length impl - 1 - t)"
proof -
  have "int (length impl - 1 - t) = n - 1 - 0 - int t"
    using assms(1,2) by auto
  then have "int (length impl - 1 - t) \<in> set (free_of n 0 impl)"
    unfolding free_of_set using assms(2,3) by blast
  then show ?thesis
    by (metis in_set_conv_nth)
qed

lemma iter_implicant_minterms_form:
  assumes len: "int (length impl) = n_bit" and nz: "n_bit \<noteq> 0"
  shows "\<exists>V. iter_implicant_minterms impl n_bit
              = Inr (map (\<lambda>m. V (int m)) [0 ..< 2 ^ free_count impl]) \<and>
           (\<forall>m p. bit (V m) p \<longleftrightarrow>
              (\<exists>t<length impl. impl ! t = CHR ''1'' \<and> p = length impl - 1 - t) \<or>
              (\<exists>s<free_count impl. bit m s \<and> free_of n_bit 0 impl ! s = int p))"
proof -
  define F where "F = free_of n_bit 0 impl"
  define B where "B = base_of n_bit 0 impl"
  define V where "V = (\<lambda>m. projr (set_free_bits F (length F) B m 0))"
  have lenF: "length F = free_count impl"
    by (simp add: F_def free_of_length free_count_def)
  have scan: "scan_implicant n_bit 0 impl 0 [] = Inr (B, F)"
    using scan_implicant_closed [of 0 impl n_bit 0 "[]"] len by (simp add: F_def B_def)
  have nonneg: "\<forall>x\<in>set F. 0 \<le> x"
    using len by (auto simp: F_def free_of_set)
  have one: "set_free_bits F (length F) B m 0 = Inr (V m) \<and>
      (\<forall>p. bit (V m) p \<longleftrightarrow> bit B p \<or> (\<exists>t. t < length F \<and> bit m t \<and> F ! t = int p))" for m
  proof -
    obtain v' where v': "set_free_bits F (length F) B m 0 = Inr v'"
      "\<forall>p. bit v' p \<longleftrightarrow> bit B p \<or> (\<exists>t. 0 \<le> t \<and> t < length F \<and> bit m (t - 0) \<and> F ! t = int p)"
      using set_free_bits_bits [OF nonneg refl, of 0 B m] by blast
    have "V m = v'"
      unfolding V_def v'(1) by simp
    with v' show ?thesis by simp
  qed
  have ex: "\<forall>m\<in>set msks. \<exists>v. set_free_bits F (length F) B m 0 = Inr v" for msks
    using one by blast
  have loop: "mask_loop F (length F) B msks = Inr (map V msks)" for msks
    unfolding V_def by (rule mask_loop_map) (rule ex)
  have iter: "iter_implicant_minterms impl n_bit
      = Inr (map (\<lambda>m. V (int m)) [0 ..< 2 ^ free_count impl])"
    using nz loop [of "map int [0 ..< 2 ^ free_count impl]"]
    by (simp add: iter_implicant_minterms_def scan Let_def lenF comp_def)
  have baseb: "bit B p \<longleftrightarrow> (\<exists>t<length impl. impl ! t = CHR ''1'' \<and> p = length impl - 1 - t)" for p
  proof -
    have "bit B p \<longleftrightarrow> (\<exists>t<length impl. impl ! t = CHR ''1'' \<and> int p = n_bit - 1 - 0 - int t)"
      unfolding B_def using base_of_bit [of 0 impl n_bit p] len by simp
    also have "\<dots> \<longleftrightarrow> (\<exists>t<length impl. impl ! t = CHR ''1'' \<and> p = length impl - 1 - t)"
      using len by auto
    finally show ?thesis .
  qed
  have "bit (V m) p \<longleftrightarrow>
      (\<exists>t<length impl. impl ! t = CHR ''1'' \<and> p = length impl - 1 - t) \<or>
      (\<exists>s<free_count impl. bit m s \<and> free_of n_bit 0 impl ! s = int p)" for m p
  proof -
    have "bit (V m) p \<longleftrightarrow> bit B p \<or> (\<exists>t<length F. bit m t \<and> F ! t = int p)"
      using one [of m] by blast
    then show ?thesis
      unfolding baseb lenF by (simp only: F_def)
  qed
  with iter show ?thesis by blast
qed

lemma bits_bounded:
  fixes v :: int
  assumes "\<forall>p. bit v p \<longrightarrow> p < n"
  shows "0 \<le> v \<and> v < 2 ^ n"
proof -
  have "take_bit n v = v"
    using assms by (intro bit_eqI) (auto simp: bit_take_bit_iff)
  then show ?thesis
    by (metis take_bit_nonnegative take_bit_int_less_exp)
qed

lemma nat_bits_eq:
  fixes a b :: nat
  assumes "a < 2 ^ f" and "b < 2 ^ f" and "\<forall>s<f. bit a s \<longleftrightarrow> bit b s"
  shows "a = b"
proof -
  have "take_bit f a = take_bit f b"
    using assms(3) by (intro bit_eqI) (auto simp: bit_take_bit_iff)
  then show ?thesis
    using assms(1,2) by (simp add: take_bit_nat_eq_self)
qed

lemma in_cube_iff:
  "in_cube impl v \<longleftrightarrow>
     0 \<le> v \<and> v < 2 ^ length impl \<and>
     (\<forall>i<length impl. (impl ! i = CHR ''0'' \<longrightarrow> \<not> bit v (length impl - 1 - i)) \<and>
                      (impl ! i = CHR ''1'' \<longrightarrow> bit v (length impl - 1 - i)))"
  by (auto simp: in_cube_def list_all_iff)

lemma nat_bits_bounded:
  fixes a :: nat
  assumes "\<forall>s. bit a s \<longrightarrow> s < f"
  shows "a < 2 ^ f"
proof -
  have "take_bit f a = a"
    using assms by (intro bit_eqI) (auto simp: bit_take_bit_iff)
  then show ?thesis
    by (simp add: take_bit_nat_eq_self_iff)
qed

lemma int_high_bits:
  fixes w :: int
  assumes "0 \<le> w" and "w < 2 ^ n" and "bit w p"
  shows "p < n"
proof -
  have "take_bit n w = w"
    using assms(1,2) by (rule take_bit_int_eq_self)
  then have "bit (take_bit n w) p"
    using assms(3) by simp
  then show ?thesis
    by (simp add: bit_take_bit_iff)
qed

lemma enumerated_values:
  assumes len: "int (length impl) = n_bit" and nz: "n_bit \<noteq> 0"
    and chars: "set impl \<subseteq> {CHR ''0'', CHR ''1'', CHR ''-''}"
  shows "\<exists>V. iter_implicant_minterms impl n_bit
              = Inr (map (\<lambda>m. V (int m)) [0 ..< 2 ^ free_count impl]) \<and>
           inj_on (\<lambda>m. V (int m)) {0 ..< 2 ^ free_count impl} \<and>
           (\<lambda>m. V (int m)) ` {0 ..< 2 ^ free_count impl} = {v. in_cube impl v}"
proof -
  define n where "n = length impl"
  define f where "f = free_count impl"
  define F where "F = free_of n_bit 0 impl"
  obtain V where iter: "iter_implicant_minterms impl n_bit = Inr (map (\<lambda>m. V (int m)) [0 ..< 2 ^ f])"
    and bits: "\<And>m p. bit (V m) p \<longleftrightarrow>
        (\<exists>t<n. impl ! t = CHR ''1'' \<and> p = n - 1 - t) \<or> (\<exists>s<f. bit m s \<and> F ! s = int p)"
    using iter_implicant_minterms_form [OF len nz] unfolding n_def f_def F_def by blast
  have lenF: "length F = f"
    by (simp add: F_def f_def free_of_length free_count_def)
  have distF: "distinct F"
    by (simp add: F_def free_of_distinct)
  have F_nth: "\<exists>t<n. impl ! t = CHR ''-'' \<and> F ! s = int (n - 1 - t)" if "s < f" for s
    using free_of_nth [OF len, of s] that unfolding F_def [symmetric] n_def [symmetric] lenF
    by blast
  have F_has: "\<exists>s<f. F ! s = int (n - 1 - t)" if "t < n" "impl ! t = CHR ''-''" for t
    using free_of_has [OF len, of t] that unfolding F_def [symmetric] n_def [symmetric] lenF
    by blast
  have pos_inj: "t = t'" if "t < n" "t' < n" "n - 1 - t = n - 1 - t'" for t t' :: nat
    using that by arith
  \<comment> \<open>fixed positions\<close>
  have zero: "\<not> bit (V m) (n - 1 - i)" if "i < n" "impl ! i = CHR ''0''" for m i
  proof
    assume "bit (V m) (n - 1 - i)"
    then consider t where "t < n" "impl ! t = CHR ''1''" "n - 1 - i = n - 1 - t"
      | s where "s < f" "F ! s = int (n - 1 - i)"
      using bits [of m "n - 1 - i"] by blast
    then show False
    proof cases
      case 1
      with that pos_inj [of i t] show False by simp
    next
      case 2
      then obtain t where "t < n" "impl ! t = CHR ''-''" "F ! s = int (n - 1 - t)"
        using F_nth [of s] by blast
      with 2 that pos_inj [of i t] show False by simp
    qed
  qed
  have one: "bit (V m) (n - 1 - i)" if "i < n" "impl ! i = CHR ''1''" for m i
    using bits [of m "n - 1 - i"] that by blast
  have free: "bit (V m) (nat (F ! s)) \<longleftrightarrow> bit m s" if sf: "s < f" for m s
  proof -
    obtain t where t: "t < n" "impl ! t = CHR ''-''" "F ! s = int (n - 1 - t)"
      using F_nth [OF sf] by blast
    have no_one: "\<not> (\<exists>t'<n. impl ! t' = CHR ''1'' \<and> n - 1 - t = n - 1 - t')"
    proof
      assume "\<exists>t'<n. impl ! t' = CHR ''1'' \<and> n - 1 - t = n - 1 - t'"
      then obtain t' where "t' < n" "impl ! t' = CHR ''1''" "n - 1 - t = n - 1 - t'" by blast
      with t pos_inj [of t t'] show False by simp
    qed
    have same: "(\<exists>s'<f. bit m s' \<and> F ! s' = int (n - 1 - t)) \<longleftrightarrow> bit m s"
    proof
      assume "\<exists>s'<f. bit m s' \<and> F ! s' = int (n - 1 - t)"
      then obtain s' where s': "s' < f" "bit m s'" "F ! s' = F ! s"
        using t(3) by auto
      then have "s' = s"
        using nth_eq_iff_index_eq [OF distF, of s' s] sf lenF by simp
      with s' show "bit m s" by simp
    next
      assume "bit m s"
      with sf t(3) show "\<exists>s'<f. bit m s' \<and> F ! s' = int (n - 1 - t)" by blast
    qed
    have "nat (F ! s) = n - 1 - t"
      using t(3) by simp
    moreover have "bit (V m) (n - 1 - t) \<longleftrightarrow> bit m s"
      using bits [of m "n - 1 - t"] no_one same by blast
    ultimately show ?thesis by simp
  qed
  have range: "p < n" if "bit (V m) p" for m p
  proof -
    from that consider t where "t < n" "p = n - 1 - t" | s where "s < f" "F ! s = int p"
      using bits [of m p] by blast
    then show ?thesis
    proof cases
      case 1
      then show ?thesis by arith
    next
      case 2
      then obtain t where "t < n" "F ! s = int (n - 1 - t)"
        using F_nth [of s] by blast
      with 2 show ?thesis by simp
    qed
  qed
  have bounds: "0 \<le> V m \<and> V m < 2 ^ n" for m
    using bits_bounded [of "V m" n] range by blast
  have in_cube: "in_cube impl (V m)" for m
    unfolding in_cube_iff n_def [symmetric] using bounds [of m] zero [of _ m] one [of _ m]
    by blast
  \<comment> \<open>injectivity\<close>
  have inj: "inj_on (\<lambda>m. V (int m)) {0 ..< 2 ^ f}"
  proof (rule inj_onI)
    fix a b :: nat
    assume a: "a \<in> {0 ..< 2 ^ f}" and b: "b \<in> {0 ..< 2 ^ f}" and eq: "V (int a) = V (int b)"
    have "bit a s \<longleftrightarrow> bit b s" if "s < f" for s
      using free [OF that, of "int a"] free [OF that, of "int b"] eq
      by (simp add: bit_of_nat_iff_bit)
    then show "a = b"
      using a b nat_bits_eq [of a f b] by simp
  qed
  \<comment> \<open>every member of the cube is enumerated\<close>
  have onto: "\<exists>m\<in>{0 ..< 2 ^ f}. V (int m) = w" if w: "in_cube impl w" for w
  proof -
    define m :: nat where "m = horner_sum of_bool 2 (map (\<lambda>x. bit w (nat x)) F)"
    have mbit: "bit m s \<longleftrightarrow> s < f \<and> bit w (nat (F ! s))" for s
      unfolding m_def using lenF by (auto simp: bit_horner_sum_bit_iff)
    have mlt: "m < 2 ^ f"
      using nat_bits_bounded [of m f] mbit by blast
    have wb: "0 \<le> w" "w < 2 ^ n"
      and w0: "\<And>i. i < n \<Longrightarrow> impl ! i = CHR ''0'' \<Longrightarrow> \<not> bit w (n - 1 - i)"
      and w1: "\<And>i. i < n \<Longrightarrow> impl ! i = CHR ''1'' \<Longrightarrow> bit w (n - 1 - i)"
      using w unfolding in_cube_iff n_def [symmetric] by blast+
    have "bit (V (int m)) p \<longleftrightarrow> bit w p" for p
    proof (cases "p < n")
      case False
      then show ?thesis
        using range [of "int m" p] int_high_bits [OF wb, of p] by blast
    next
      case True
      define i where "i = n - 1 - p"
      have i: "i < n" "n - 1 - i = p"
        using True unfolding i_def by arith+
      have "impl ! i \<in> set impl"
        using i(1) by (simp add: n_def)
      then consider "impl ! i = CHR ''0''" | "impl ! i = CHR ''1''" | "impl ! i = CHR ''-''"
        using chars by blast
      then show ?thesis
      proof cases
        case 1
        then show ?thesis
          using zero [OF i(1), of "int m"] w0 [OF i(1)] i(2) by simp
      next
        case 2
        then show ?thesis
          using one [OF i(1), of "int m"] w1 [OF i(1)] i(2) by simp
      next
        case 3
        then obtain s where s: "s < f" "F ! s = int p"
          using F_has [OF i(1)] i(2) by auto
        then have "nat (F ! s) = p" by simp
        then show ?thesis
          using free [OF s(1), of "int m"] mbit [of s] s(1) by (simp add: bit_of_nat_iff_bit)
      qed
    qed
    then have "V (int m) = w"
      by (rule bit_eqI)
    with mlt show ?thesis by auto
  qed
  have image: "(\<lambda>m. V (int m)) ` {0 ..< 2 ^ f} = {v. in_cube impl v}"
    using in_cube onto by auto
  show ?thesis
    using iter inj image unfolding f_def by blast
qed

text \<open>
  C1. For an implicant of length \<open>n_bit\<close> over 0, 1 and -, the enumerator raises nothing
  and yields exactly \<open>2 ^ f\<close> values, \<open>f\<close> the number of free positions, all distinct,
  each in \<open>[0, 2 ^ n_bit)\<close>, and the set of the values is the cube of the implicant;
  at width 0 the empty implicant yields the single minterm 0.
\<close>

theorem iter_implicant_minterms_cube:
  assumes len: "int (length impl) = n_bit"
    and chars: "set impl \<subseteq> {CHR ''0'', CHR ''1'', CHR ''-''}"
  shows "\<exists>vs. iter_implicant_minterms impl n_bit = Inr vs \<and>
           length vs = 2 ^ free_count impl \<and> distinct vs \<and>
           (\<forall>v\<in>set vs. 0 \<le> v \<and> v < 2 ^ nat n_bit) \<and>
           set vs = {v. in_cube impl v} \<and>
           (n_bit = 0 \<longrightarrow> vs = [0])"
proof (cases "n_bit = 0")
  case True
  then have impl: "impl = []"
    using len by simp
  have "{v. in_cube [] v} = {0}"
    by (auto simp: in_cube_def)
  then show ?thesis
    using True impl by (simp add: iter_implicant_minterms_def free_count_def)
next
  case False
  obtain V where iter: "iter_implicant_minterms impl n_bit
        = Inr (map (\<lambda>m. V (int m)) [0 ..< 2 ^ free_count impl])"
    and inj: "inj_on (\<lambda>m. V (int m)) {0 ..< 2 ^ free_count impl}"
    and image: "(\<lambda>m. V (int m)) ` {0 ..< 2 ^ free_count impl} = {v. in_cube impl v}"
    using enumerated_values [OF len False chars] by blast
  define vs where "vs = map (\<lambda>m. V (int m)) [0 ..< 2 ^ free_count impl]"
  have l: "length vs = 2 ^ free_count impl"
    by (simp add: vs_def)
  have d: "distinct vs"
    unfolding vs_def using inj by (simp add: distinct_map)
  have s: "set vs = {v. in_cube impl v}"
    unfolding vs_def using image by simp
  have "nat n_bit = length impl"
    using len by auto
  then have b: "\<forall>v\<in>set vs. 0 \<le> v \<and> v < 2 ^ nat n_bit"
    unfolding s by (simp add: in_cube_def)
  show ?thesis
    using iter l d s b False unfolding vs_def [symmetric] by blast
qed

theorem iter_implicant_minterms_cube_witness:
  "iter_implicant_minterms ''1-0-'' 4 = Inr [8, 12, 9, 13] \<and>
   {v. in_cube ''1-0-'' v} = {8, 9, 12, 13} \<and>
   iter_implicant_minterms [] 0 = Inr [0] \<and> {v. in_cube [] v} = {0}"
proof -
  have a: "iter_implicant_minterms ''1-0-'' 4 = Inr [8, 12, 9, 13]"
    by code_simp
  have b: "{v. in_cube ''1-0-'' v} = {8, 9, 12, 13}"
    using iter_implicant_minterms_cube [of "''1-0-''" 4] unfolding a by auto
  have c: "iter_implicant_minterms [] 0 = Inr [0] \<and> {v. in_cube [] v} = {0}"
    using iter_implicant_minterms_cube [of "[]" 0] by auto
  show ?thesis using a b c by simp
qed

subsection \<open>Validation, the literal count and one reservoir call\<close>

lemma check_chars_cases:
  "check_chars chs impl =
     (if set chs \<subseteq> {CHR ''0'', CHR ''1'', CHR ''-''} then Inr ()
      else Inl (ValueError (IllegalCharacter impl)))"
  by (induction chs) auto

lemma validate_implicant_cases:
  "validate_implicant impl n_bit =
     (if n_bit = 0 then (if impl = [] then Inr () else Inl (ValueError NonEmptyAtZeroWidth))
      else if int (length impl) \<noteq> n_bit then Inl (ValueError (LengthMismatch n_bit impl))
      else if set impl \<subseteq> {CHR ''0'', CHR ''1'', CHR ''-''} then Inr ()
      else Inl (ValueError (IllegalCharacter impl)))"
  by (simp add: validate_implicant_def check_chars_cases)

lemma validate_implicant_ok:
  "validate_implicant impl n_bit = Inr () \<longleftrightarrow>
     int (length impl) = n_bit \<and> set impl \<subseteq> {CHR ''0'', CHR ''1'', CHR ''-''}"
  by (auto simp: validate_implicant_cases)

lemma validate_all_ok:
  "validate_all impls n_bit = Inr () \<longleftrightarrow>
     (\<forall>impl\<in>set impls. validate_implicant impl n_bit = Inr ())"
  by (induction impls) (auto split: sum.splits)

lemma validate_all_first:
  assumes "\<forall>impl\<in>set pre. validate_implicant impl n_bit = Inr ()"
  shows "validate_all (pre @ bad # post) n_bit =
           (case validate_implicant bad n_bit of Inl e \<Rightarrow> Inl e | Inr u \<Rightarrow> validate_all post n_bit)"
  using assms by (induction pre) simp_all

lemma strip_no_space:
  assumes "\<forall>ch\<in>set s. \<not> isspace ch"
  shows "strip s = s"
proof -
  have dw: "dropWhile isspace xs = xs" if "\<forall>ch\<in>set xs. \<not> isspace ch" for xs
    using that by (cases xs) simp_all
  have "dropWhile isspace (rev (dropWhile isspace s)) = rev s"
    using assms by (simp add: dw)
  then show ?thesis
    by (simp add: strip_def)
qed

lemma strip_valid:
  assumes "set s \<subseteq> {CHR ''0'', CHR ''1'', CHR ''-''}"
  shows "strip s = s"
proof (rule strip_no_space)
  have "\<not> isspace CHR ''0''" "\<not> isspace CHR ''1''" "\<not> isspace CHR ''-''"
    by (simp_all add: isspace_def)
  then show "\<forall>ch\<in>set s. \<not> isspace ch"
    using assms by auto
qed

lemma valid_implicants_validated:
  assumes "validate_all impls n_bit = Inr ()"
  shows "valid_implicants impls = (if n_bit = 0 then [] else impls)"
proof -
  have v: "\<forall>impl\<in>set impls. int (length impl) = n_bit \<and> strip impl = impl"
    using assms by (auto simp: validate_all_ok validate_implicant_ok strip_valid)
  have "map strip (filter (\<lambda>impl. strip impl \<noteq> []) xs) = (if n_bit = 0 then [] else xs)"
    if "\<forall>impl\<in>set xs. int (length impl) = n_bit \<and> strip impl = impl" for xs
    using that by (induction xs) auto
  then show ?thesis
    using v by (simp add: valid_implicants_def)
qed

lemma count_chars_eq:
  "count_chars chs c = c + int (length (filter (\<lambda>ch. ch = CHR ''0'' \<or> ch = CHR ''1'') chs))"
  by (induction chs arbitrary: c) simp_all

lemma count_impls_eq:
  "count_impls impls c =
     c + int (length (filter (\<lambda>ch. ch = CHR ''0'' \<or> ch = CHR ''1'') (concat impls)))"
  by (induction impls arbitrary: c) (simp_all add: count_chars_eq)

lemma count_literals_eq:
  "count_literals impls = int (length (filter (\<lambda>ch. ch = CHR ''0'' \<or> ch = CHR ''1'') (concat impls)))"
  by (simp add: count_literals_def count_impls_eq)

lemma reservoir_add_step:
  assumes "0 \<le> c" and "int (length s) = min (max 0 k) c"
  shows "\<exists>s' g'. reservoir_add s k (c + 1) x g = Inr (s', g') \<and>
           int (length s') = min (max 0 k) (c + 1)"
proof -
  consider (off) "k \<le> 0" | (fill) "0 < k" "c + 1 \<le> k" | (full) "0 < k" "k < c + 1"
    by linarith
  then show ?thesis
  proof cases
    case off
    then show ?thesis using assms by (simp add: reservoir_add_def)
  next
    case fill
    then show ?thesis using assms by (simp add: reservoir_add_def)
  next
    case full
    then have len: "int (length s) = k"
      using assms by simp
    define j where "j = 1 + int (g 0 mod nat (c + 1 - 1 + 1))"
    have r: "randint 1 (c + 1) g = Inr (j, \<lambda>i. g (Suc i))"
      using assms(1) by (simp add: randint_def j_def)
    have j1: "1 \<le> j"
      by (simp add: j_def)
    show ?thesis
    proof (cases "j \<le> k")
      case True
      then have "list_set s (j - 1) x = Inr (s[nat (j - 1) := x])"
        using j1 len by (simp add: list_set_def Let_def)
      then show ?thesis
        using full True len r by (simp add: reservoir_add_def)
    next
      case False
      then show ?thesis
        using full len r by (simp add: reservoir_add_def)
    qed
  qed
qed

subsection \<open>The loops of the checks\<close>

lemma dup_loop_result:
  assumes "0 \<le> dc" and "int (length ds) = min (max 0 k) dc"
  shows "\<exists>ds' g'. dup_loop k idx impls seen dc ds g
             = Inr (dc + int (length impls) - int (card (set impls - dom seen)), ds', g') \<and>
           int (length ds')
             = min (max 0 k) (dc + int (length impls) - int (card (set impls - dom seen)))"
  using assms
proof (induction impls arbitrary: idx seen dc ds g)
  case Nil
  then show ?case by simp
next
  case (Cons impl impls)
  show ?case
  proof (cases "seen impl")
    case None
    have "set (impl # impls) - dom seen = insert impl (set impls - dom (seen(impl \<mapsto> idx)))"
      using None by auto
    moreover have "impl \<notin> set impls - dom (seen(impl \<mapsto> idx))"
      by simp
    ultimately have card: "card (set (impl # impls) - dom seen)
        = Suc (card (set impls - dom (seen(impl \<mapsto> idx))))"
      by (simp del: dom_fun_upd)
    define X where "X = dc + int (length impls) - int (card (set impls - dom (seen(impl \<mapsto> idx))))"
    obtain ds' g' where r: "dup_loop k (idx + 1) impls (seen(impl \<mapsto> idx)) dc ds g = Inr (X, ds', g')"
      and l: "int (length ds') = min (max 0 k) X"
      using Cons.IH [OF Cons.prems, of "idx + 1" "seen(impl \<mapsto> idx)" g] unfolding X_def by blast
    have step: "dup_loop k idx (impl # impls) seen dc ds g
        = dup_loop k (idx + 1) impls (seen(impl \<mapsto> idx)) dc ds g"
      using None by simp
    have arith: "dc + int (length (impl # impls)) - int (card (set (impl # impls) - dom seen)) = X"
      unfolding card X_def by simp
    show ?thesis
      unfolding step arith using r l by blast
  next
    case (Some first)
    then have "set (impl # impls) - dom seen = set impls - dom seen"
      by auto
    then have card: "card (set (impl # impls) - dom seen) = card (set impls - dom seen)"
      by simp
    obtain ds1 g1 where r: "reservoir_add ds k (dc + 1)
          (''line '' @ str_int first @ '' and line '' @ str_int idx @ '': '' @ impl) g
          = Inr (ds1, g1)"
      and l: "int (length ds1) = min (max 0 k) (dc + 1)"
      using reservoir_add_step [OF Cons.prems] by blast
    have nonneg: "0 \<le> dc + 1"
      using Cons.prems(1) by simp
    define X where "X = dc + 1 + int (length impls) - int (card (set impls - dom seen))"
    obtain ds' g' where r': "dup_loop k (idx + 1) impls seen (dc + 1) ds1 g1 = Inr (X, ds', g')"
      and l': "int (length ds') = min (max 0 k) X"
      using Cons.IH [OF nonneg l, of "idx + 1" seen g1] unfolding X_def by blast
    have step: "dup_loop k idx (impl # impls) seen dc ds g
        = dup_loop k (idx + 1) impls seen (dc + 1) ds1 g1"
      using Some r by simp
    have arith: "dc + int (length (impl # impls)) - int (card (set (impl # impls) - dom seen)) = X"
      unfolding card X_def by simp
    show ?thesis
      unfolding step arith using r' l' by blast
  qed
qed

lemma minterm_loop_result:
  assumes "0 \<le> oc" and "int (length os) = min (max 0 k) oc"
  shows "\<exists>os' g'. minterm_loop k on al ms (cov, oc, os, g)
             = Inr (cov \<union> (set ms \<inter> on),
                    oc + int (length (filter (\<lambda>m. m \<notin> on \<and> m \<notin> al) ms)), os', g') \<and>
           int (length os')
             = min (max 0 k) (oc + int (length (filter (\<lambda>m. m \<notin> on \<and> m \<notin> al) ms)))"
  using assms
proof (induction ms arbitrary: cov oc os g)
  case Nil
  then show ?case by simp
next
  case (Cons m ms)
  consider (on) "m \<in> on" | (off) "m \<notin> on" "m \<notin> al" | (dc) "m \<notin> on" "m \<in> al"
    by blast
  then show ?case
  proof cases
    case on
    have "insert m cov \<union> (set ms \<inter> on) = cov \<union> (set (m # ms) \<inter> on)"
      using on by auto
    then show ?thesis
      using Cons.IH [OF Cons.prems, of "insert m cov" g] on by simp
  next
    case off
    obtain os1 g1 where r: "reservoir_add os k (oc + 1) m g = Inr (os1, g1)"
      and l: "int (length os1) = min (max 0 k) (oc + 1)"
      using reservoir_add_step [OF Cons.prems] by blast
    have nonneg: "0 \<le> oc + 1"
      using Cons.prems(1) by simp
    have "cov \<union> (set ms \<inter> on) = cov \<union> (set (m # ms) \<inter> on)"
      using off by auto
    then show ?thesis
      using Cons.IH [OF nonneg l, of cov g1] off r by (simp add: add.assoc)
  next
    case dc
    have "cov \<union> (set ms \<inter> on) = cov \<union> (set (m # ms) \<inter> on)"
      using dc by auto
    then show ?thesis
      using Cons.IH [OF Cons.prems, of cov g] dc by simp
  qed
qed

lemma uncovered_sampled_result:
  assumes "0 \<le> uc" and "int (length us) = min (max 0 k) uc"
  shows "\<exists>us' g'. uncovered_sampled k cov ms uc us g
             = Inr (uc + int (length (filter (\<lambda>m. m \<notin> cov) ms)), us', g') \<and>
           int (length us') = min (max 0 k) (uc + int (length (filter (\<lambda>m. m \<notin> cov) ms)))"
  using assms
proof (induction ms arbitrary: uc us g)
  case Nil
  then show ?case by simp
next
  case (Cons m ms)
  show ?case
  proof (cases "m \<in> cov")
    case True
    then show ?thesis
      using Cons.IH [OF Cons.prems, of g] by simp
  next
    case False
    obtain us1 g1 where r: "reservoir_add us k (uc + 1) m g = Inr (us1, g1)"
      and l: "int (length us1) = min (max 0 k) (uc + 1)"
      using reservoir_add_step [OF Cons.prems] by blast
    have nonneg: "0 \<le> uc + 1"
      using Cons.prems(1) by simp
    show ?thesis
      using Cons.IH [OF nonneg l, of g1] False r by (simp add: add.assoc)
  qed
qed

lemma uncovered_plain_result:
  "uncovered_plain cov ms uc = uc + int (length (filter (\<lambda>m. m \<notin> cov) ms))"
  by (induction ms arbitrary: uc) simp_all

lemma events_of_Cons:
  "iter_implicant_minterms impl n_bit = Inr ms \<Longrightarrow>
   events_of (impl # impls) n_bit = map (Pair impl) ms @ events_of impls n_bit"
  by (simp add: events_of_def)

lemma implicant_loop_result:
  assumes "\<forall>impl\<in>set impls. \<exists>ms. iter_implicant_minterms impl n_bit = Inr ms"
    and "0 \<le> oc" and "int (length os) = min (max 0 k) oc"
  shows "\<exists>os' g'. implicant_loop k n_bit on al impls (cov, oc, os, g)
             = Inr (cov \<union> (snd ` set (events_of impls n_bit) \<inter> on),
                    oc + int (length (filter (\<lambda>(impl, m). m \<notin> on \<and> m \<notin> al)
                                        (events_of impls n_bit))),
                    os', g') \<and>
           int (length os')
             = min (max 0 k)
                 (oc + int (length (filter (\<lambda>(impl, m). m \<notin> on \<and> m \<notin> al)
                                      (events_of impls n_bit))))"
  using assms
proof (induction impls arbitrary: cov oc os g)
  case Nil
  then show ?case by (simp add: events_of_def)
next
  case (Cons impl impls)
  obtain ms where ms: "iter_implicant_minterms impl n_bit = Inr ms"
    using Cons.prems(1) by auto
  define oc1 where "oc1 = oc + int (length (filter (\<lambda>m. m \<notin> on \<and> m \<notin> al) ms))"
  obtain os1 g1 where m: "minterm_loop k on al ms (cov, oc, os, g)
        = Inr (cov \<union> (set ms \<inter> on), oc1, os1, g1)"
    and l1: "int (length os1) = min (max 0 k) oc1"
    using minterm_loop_result [OF Cons.prems(2,3), of on al ms cov g] unfolding oc1_def by blast
  have nonneg: "0 \<le> oc1"
    using Cons.prems(2) by (simp add: oc1_def)
  have rest: "\<forall>impl\<in>set impls. \<exists>ms. iter_implicant_minterms impl n_bit = Inr ms"
    using Cons.prems(1) by simp
  define oc2 where "oc2 = oc1 + int (length (filter (\<lambda>(impl, m). m \<notin> on \<and> m \<notin> al)
      (events_of impls n_bit)))"
  obtain os2 g2 where r: "implicant_loop k n_bit on al impls (cov \<union> (set ms \<inter> on), oc1, os1, g1)
        = Inr (cov \<union> (set ms \<inter> on) \<union> (snd ` set (events_of impls n_bit) \<inter> on), oc2, os2, g2)"
    and l2: "int (length os2) = min (max 0 k) oc2"
    using Cons.IH [OF rest nonneg l1, of "cov \<union> (set ms \<inter> on)" g1] unfolding oc2_def by blast
  have step: "implicant_loop k n_bit on al (impl # impls) (cov, oc, os, g)
      = implicant_loop k n_bit on al impls (cov \<union> (set ms \<inter> on), oc1, os1, g1)"
    using ms m by simp
  have ev: "events_of (impl # impls) n_bit = map (Pair impl) ms @ events_of impls n_bit"
    using ms by (rule events_of_Cons)
  have cnt: "length (filter (\<lambda>(impl, m). m \<notin> on \<and> m \<notin> al) (map (Pair impl) ms))
      = length (filter (\<lambda>m. m \<notin> on \<and> m \<notin> al) ms)"
    by (simp add: filter_map comp_def)
  have arith: "oc + int (length (filter (\<lambda>(impl, m). m \<notin> on \<and> m \<notin> al)
      (events_of (impl # impls) n_bit))) = oc2"
    unfolding ev oc2_def oc1_def using cnt by simp
  have "snd ` set (map (Pair impl) ms) = set ms"
    by (simp add: image_image)
  then have cov: "cov \<union> (snd ` set (events_of (impl # impls) n_bit) \<inter> on)
      = cov \<union> (set ms \<inter> on) \<union> (snd ` set (events_of impls n_bit) \<inter> on)"
    unfolding ev by (auto simp: image_Un)
  show ?case
    unfolding step arith cov using r l2 by blast
qed

lemma validated_enumerates:
  assumes "validate_all impls n_bit = Inr ()"
  shows "\<forall>impl\<in>set (valid_implicants impls). \<exists>ms. iter_implicant_minterms impl n_bit = Inr ms"
proof (cases "n_bit = 0")
  case True
  then show ?thesis
    using valid_implicants_validated [OF assms] by simp
next
  case False
  have "\<exists>ms. iter_implicant_minterms impl n_bit = Inr ms" if "impl \<in> set impls" for impl
  proof -
    have "int (length impl) = n_bit"
      using assms that by (auto simp: validate_all_ok validate_implicant_ok)
    then show ?thesis
      using iter_implicant_minterms_form [OF _ False, of impl] by blast
  qed
  then show ?thesis
    using valid_implicants_validated [OF assms] False by simp
qed

lemma loop_covered_eq:
  "loop_covered implicants n_bit on_set
     = snd ` set (loop_events implicants n_bit) \<inter> set on_set"
  by (simp add: loop_covered_def)

lemma checks_result:
  assumes val: "validate_all impls n_bit = Inr ()"
  shows "\<exists>v. checks a n_bit on_set dc_set impls g = Inr v \<and>
           lit_count v = count_literals impls \<and>
           fail_literal_product v
             = (0 < n_bit \<and> 0 < int (length on_set) \<and>
                int (length on_set) * n_bit \<le> count_literals impls) \<and>
           dup_count v = int (length impls) - int (card (set impls)) \<and>
           covered_on v = loop_covered impls n_bit on_set \<and>
           off_hit_count v = int (length (loop_off_events impls n_bit on_set dc_set)) \<and>
           uncovered_count v
             = int (length (filter (\<lambda>m. m \<notin> loop_covered impls n_bit on_set) on_set)) \<and>
           passed v = (dup_count v = 0 \<and> uncovered_count v = 0 \<and> off_hit_count v = 0 \<and>
                       \<not> fail_literal_product v) \<and>
           int (length (dup_sample v)) \<le> max 0 (sample a) \<and>
           int (length (off_hit_sample v)) \<le> max 0 (sample a) \<and>
           int (length (uncovered_sample v)) \<le> max 0 (sample a)"
proof -
  define k where "k = max 0 (sample a)"
  define on where "on = set on_set"
  define al where "al = set on_set \<union> set dc_set"
  define vi where "vi = valid_implicants impls"
  define D where "D = int (length impls) - int (card (set impls))"
  define E where "E = events_of vi n_bit"
  define C where "C = snd ` set E \<inter> on"
  define OC where "OC = int (length (filter (\<lambda>(impl, m). m \<notin> on \<and> m \<notin> al) E))"
  define U where "U = int (length (filter (\<lambda>m. m \<notin> C) on_set))"
  have init: "(0::int) \<le> 0" "int (length ([]::'x list)) = min (max 0 k) 0"
    by simp_all
  obtain ds g1 where dup: "dup_loop k 0 impls Map.empty 0 [] g = Inr (D, ds, g1)"
    and lds: "int (length ds) = min (max 0 k) D"
    using dup_loop_result [OF init, where idx = 0 and impls = impls and seen = Map.empty and g = g]
    unfolding D_def by auto
  have enum: "\<forall>impl\<in>set vi. \<exists>ms. iter_implicant_minterms impl n_bit = Inr ms"
    unfolding vi_def using val by (rule validated_enumerates)
  obtain os g2 where cover: "implicant_loop k n_bit on al vi ({}, 0, [], g1) = Inr (C, OC, os, g2)"
    and los: "int (length os) = min (max 0 k) OC"
    using implicant_loop_result [OF enum init, where on = on and al = al and cov = "{}" and g = g1]
    unfolding C_def OC_def E_def by auto
  have cover': "(if vi \<noteq> [] then implicant_loop k n_bit on al vi ({}, 0, [], g1)
      else Inr ({}, 0, [], g1)) = Inr (C, OC, os, g2)"
    using cover by (cases vi) auto
  obtain us g3 where unc: "(if k > 0 then uncovered_sampled k C on_set 0 [] g2
      else Inr (uncovered_plain C on_set 0, [], g2)) = Inr (U, us, g3)"
    and lus: "int (length us) \<le> max 0 k"
  proof (cases "k > 0")
    case True
    obtain us g3 where "uncovered_sampled k C on_set 0 [] g2 = Inr (U, us, g3)"
      and "int (length us) = min (max 0 k) U"
      using uncovered_sampled_result [OF init, where cov = C and ms = on_set and g = g2]
        unfolding U_def by auto
    with True that show ?thesis by simp
  next
    case False
    then show ?thesis
      using that [of "[]" g2] by (simp add: uncovered_plain_result U_def)
  qed
  define v where "v = \<lparr> lit_count = count_literals impls,
      fail_literal_product = (n_bit > 0 \<and> int (length on_set) > 0 \<and>
         count_literals impls \<ge> int (length on_set) * n_bit),
      dup_count = D, dup_sample = ds, covered_on = C, off_hit_count = OC, off_hit_sample = os,
      uncovered_count = U, uncovered_sample = us,
      passed = (D = 0 \<and> U = 0 \<and> OC = 0 \<and>
         \<not> (n_bit > 0 \<and> int (length on_set) > 0 \<and>
            count_literals impls \<ge> int (length on_set) * n_bit)) \<rparr>"
  have "checks a n_bit on_set dc_set impls g =
      (case dup_loop k 0 impls Map.empty 0 [] g of
         Inl e \<Rightarrow> Inl e
       | Inr (dc, ds, g1) \<Rightarrow>
           (case (if vi \<noteq> [] then implicant_loop k n_bit on al vi ({}, 0, [], g1)
                  else Inr ({}, 0, [], g1)) of
              Inl e \<Rightarrow> Inl e
            | Inr (cov, oc, os, g2) \<Rightarrow>
                (case (if k > 0 then uncovered_sampled k cov on_set 0 [] g2
                       else Inr (uncovered_plain cov on_set 0, [], g2)) of
                   Inl e \<Rightarrow> Inl e
                 | Inr (uc, us, g3) \<Rightarrow>
                     Inr \<lparr> lit_count = count_literals impls,
                           fail_literal_product = (n_bit > 0 \<and> int (length on_set) > 0 \<and>
                              count_literals impls \<ge> int (length on_set) * n_bit),
                           dup_count = dc, dup_sample = ds,
                           covered_on = cov, off_hit_count = oc, off_hit_sample = os,
                           uncovered_count = uc, uncovered_sample = us,
                           passed = (dc = 0 \<and> uc = 0 \<and> oc = 0 \<and>
                              \<not> (n_bit > 0 \<and> int (length on_set) > 0 \<and>
                                 count_literals impls \<ge> int (length on_set) * n_bit)) \<rparr>)))"
    unfolding checks_def Let_def k_def on_def al_def vi_def ..
  also have "\<dots> = Inr v"
    by (simp only: dup cover' unc sum.case prod.case v_def)
  finally have res: "checks a n_bit on_set dc_set impls g = Inr v" .
  have Ceq: "C = loop_covered impls n_bit on_set"
    by (simp add: C_def E_def on_def loop_covered_eq loop_events_def vi_def)
  have pred: "(\<lambda>(impl, m). m \<notin> on \<and> m \<notin> al) = (\<lambda>(impl, m). m \<notin> set on_set \<and> m \<notin> set dc_set)"
    by (auto simp: on_def al_def)
  have Oeq: "OC = int (length (loop_off_events impls n_bit on_set dc_set))"
    unfolding OC_def pred by (simp add: E_def loop_off_events_def loop_events_def vi_def)
  have kk: "max 0 k = k"
    by (simp add: k_def)
  show ?thesis
    using res lds los lus unfolding kk
    by (intro exI [of _ v]) (simp add: v_def D_def U_def Ceq Oeq k_def)
qed

lemma main_validated:
  assumes "validate_all (read_sop_file sop_lines n_bit) n_bit = Inr ()"
    and "checks a n_bit on_set dc_set (read_sop_file sop_lines n_bit) g = Inr v"
  shows "main a n_bit on_set dc_set sop_lines g
           = Inr (report a n_bit on_set dc_set (read_sop_file sop_lines n_bit) v)"
  using assms by (simp add: main_def)

subsection \<open>The verdict and the report\<close>

text \<open>
  C2. When every implicant read from the SOP file is valid, the checks raise nothing, the
  verdict is pass if and only if there is no duplicate, no uncovered on-set term, no
  off-set hit and the literal bound holds, and with \<open>--quiet\<close> the run prints the single
  line \<open>PASS\<close> followed by the literal count when it passes and \<open>FAIL\<close> otherwise, and
  exits with status 0.
\<close>

theorem verdict_and_terse_output:
  assumes "validate_all (read_sop_file sop_lines n_bit) n_bit = Inr ()"
  shows "\<exists>v. checks a n_bit on_set dc_set (read_sop_file sop_lines n_bit) g = Inr v \<and>
           (passed v \<longleftrightarrow>
              dup_count v = 0 \<and> uncovered_count v = 0 \<and> off_hit_count v = 0 \<and>
              \<not> fail_literal_product v) \<and>
           (quiet a \<longrightarrow>
              run a n_bit on_set dc_set sop_lines g
                = \<lparr> stdout = [if passed v then ''PASS '' @ str_int (lit_count v) else ''FAIL''],
                    stderr = [], exit_code = 0 \<rparr>)"
proof -
  obtain v where v: "checks a n_bit on_set dc_set (read_sop_file sop_lines n_bit) g = Inr v"
    and p: "passed v = (dup_count v = 0 \<and> uncovered_count v = 0 \<and> off_hit_count v = 0 \<and>
                       \<not> fail_literal_product v)"
    using checks_result [OF assms, of a on_set dc_set g] by blast
  have "run a n_bit on_set dc_set sop_lines g
      = \<lparr> stdout = [if passed v then ''PASS '' @ str_int (lit_count v) else ''FAIL''],
          stderr = [], exit_code = 0 \<rparr>" if "quiet a"
    using that by (simp add: run_def main_validated [OF assms v] report_def)
  with v p show ?thesis by blast
qed

theorem verdict_and_terse_output_witness:
  "run \<lparr> quiet = True, summary = False, sample = 0 \<rparr> 2 [0, 1, 2, 3] [] [''--\<newline>''] (\<lambda>i. 0)
     = \<lparr> stdout = [''PASS 0''], stderr = [], exit_code = 0 \<rparr> \<and>
   run \<lparr> quiet = True, summary = False, sample = 0 \<rparr> 1 [0, 1] [] [''0\<newline>''] (\<lambda>i. 0)
     = \<lparr> stdout = [''FAIL''], stderr = [], exit_code = 0 \<rparr>"
proof -
  let ?a = "\<lparr> quiet = True, summary = False, sample = 0 \<rparr>"
  have r1: "read_sop_file [''--\<newline>''] 2 = [''--'']" and r2: "read_sop_file [''0\<newline>''] 1 = [''0'']"
    by code_simp+
  have v1: "validate_all (read_sop_file [''--\<newline>''] 2) 2 = Inr ()"
    and v2: "validate_all (read_sop_file [''0\<newline>''] 1) 1 = Inr ()"
    by code_simp+
  have c1: "checks ?a 2 [0, 1, 2, 3] [] [''--''] (\<lambda>i. 0)
      = Inr \<lparr> lit_count = 0, fail_literal_product = False, dup_count = 0, dup_sample = [],
              covered_on = {3, 1, 2, 0}, off_hit_count = 0, off_hit_sample = [],
              uncovered_count = 0, uncovered_sample = [], passed = True \<rparr>"
    by code_simp
  have c2: "checks ?a 1 [0, 1] [] [''0''] (\<lambda>i. 0)
      = Inr \<lparr> lit_count = 1, fail_literal_product = False, dup_count = 0, dup_sample = [],
              covered_on = {0}, off_hit_count = 0, off_hit_sample = [],
              uncovered_count = 1, uncovered_sample = [], passed = False \<rparr>"
    by code_simp
  have s0: "str_int 0 = ''0''"
    by code_simp
  have a: "run ?a 2 [0, 1, 2, 3] [] [''--\<newline>''] (\<lambda>i. 0)
      = \<lparr> stdout = [''PASS 0''], stderr = [], exit_code = 0 \<rparr>"
    using verdict_and_terse_output [OF v1, of ?a "[0, 1, 2, 3]" "[]" "\<lambda>i. 0"]
    unfolding r1 c1 by (auto simp: s0)
  have b: "run ?a 1 [0, 1] [] [''0\<newline>''] (\<lambda>i. 0)
      = \<lparr> stdout = [''FAIL''], stderr = [], exit_code = 0 \<rparr>"
    using verdict_and_terse_output [OF v2, of ?a "[0, 1]" "[]" "\<lambda>i. 0"]
    unfolding r2 c2 by auto
  show ?thesis using a b by simp
qed

text \<open>
  C3. After validation, the literal count is the number of characters 0 and 1 over all
  the implicants (a - is not counted), and the literal bound fails if and only if the
  bit width is positive, the on-set is not empty and the literal count is at least the
  size of the on-set times the bit width, equality included; with an empty on-set the
  bound never fails. A failed bound alone fails the verdict.
\<close>

theorem literal_count_and_bound:
  assumes "validate_all implicants n_bit = Inr ()"
  shows "\<exists>v. checks a n_bit on_set dc_set implicants g = Inr v \<and>
           lit_count v
             = int (length (filter (\<lambda>ch. ch = CHR ''0'' \<or> ch = CHR ''1'') (concat implicants))) \<and>
           (fail_literal_product v \<longleftrightarrow>
              n_bit > 0 \<and> length on_set > 0 \<and> lit_count v \<ge> int (length on_set) * n_bit) \<and>
           (length on_set = 0 \<longrightarrow> \<not> fail_literal_product v) \<and>
           (fail_literal_product v \<longrightarrow> \<not> passed v)"
proof -
  obtain v where v: "checks a n_bit on_set dc_set implicants g = Inr v"
    and l: "lit_count v = count_literals implicants"
    and f: "fail_literal_product v
       = (0 < n_bit \<and> 0 < int (length on_set) \<and>
          int (length on_set) * n_bit \<le> count_literals implicants)"
    and p: "passed v = (dup_count v = 0 \<and> uncovered_count v = 0 \<and> off_hit_count v = 0 \<and>
                       \<not> fail_literal_product v)"
    using checks_result [OF assms, of a on_set dc_set g] by blast
  have "lit_count v
      = int (length (filter (\<lambda>ch. ch = CHR ''0'' \<or> ch = CHR ''1'') (concat implicants)))"
    using l by (simp only: count_literals_eq)
  moreover have "fail_literal_product v \<longleftrightarrow>
      n_bit > 0 \<and> length on_set > 0 \<and> lit_count v \<ge> int (length on_set) * n_bit"
    using f l by simp
  moreover have "length on_set = 0 \<longrightarrow> \<not> fail_literal_product v"
    using f by simp
  moreover have "fail_literal_product v \<longrightarrow> \<not> passed v"
    using p by simp
  ultimately show ?thesis
    using v by blast
qed

theorem literal_count_and_bound_witness:
  "validate_all [''00''] 2 = Inr () \<and>
   (\<exists>v. checks \<lparr> quiet = False, summary = False, sample = 0 \<rparr> 2 [0] [] [''00''] (\<lambda>i. 0) = Inr v \<and>
        lit_count v = 2 \<and> fail_literal_product v \<and> uncovered_count v = 0 \<and>
        off_hit_count v = 0 \<and> \<not> passed v) \<and>
   (\<exists>v. checks \<lparr> quiet = False, summary = False, sample = 0 \<rparr> 2 [] [0] [''00''] (\<lambda>i. 0) = Inr v \<and>
        lit_count v = 2 \<and> \<not> fail_literal_product v \<and> passed v)"
proof -
  let ?a = "\<lparr> quiet = False, summary = False, sample = 0 \<rparr>"
  have val: "validate_all [''00''] 2 = Inr ()"
    by code_simp
  have c1: "checks ?a 2 [0] [] [''00''] (\<lambda>i. 0)
      = Inr \<lparr> lit_count = 2, fail_literal_product = True, dup_count = 0, dup_sample = [],
              covered_on = {0}, off_hit_count = 0, off_hit_sample = [],
              uncovered_count = 0, uncovered_sample = [], passed = False \<rparr>"
    by code_simp
  have c2: "checks ?a 2 [] [0] [''00''] (\<lambda>i. 0)
      = Inr \<lparr> lit_count = 2, fail_literal_product = False, dup_count = 0, dup_sample = [],
              covered_on = {}, off_hit_count = 0, off_hit_sample = [],
              uncovered_count = 0, uncovered_sample = [], passed = True \<rparr>"
    by code_simp
  have a: "\<exists>v. checks ?a 2 [0] [] [''00''] (\<lambda>i. 0) = Inr v \<and>
        lit_count v = 2 \<and> fail_literal_product v \<and> uncovered_count v = 0 \<and>
        off_hit_count v = 0 \<and> \<not> passed v"
    using literal_count_and_bound [OF val, of ?a "[0]" "[]" "\<lambda>i. 0"] unfolding c1 by auto
  have b: "\<exists>v. checks ?a 2 [] [0] [''00''] (\<lambda>i. 0) = Inr v \<and>
        lit_count v = 2 \<and> \<not> fail_literal_product v \<and> passed v"
    using literal_count_and_bound [OF val, of ?a "[]" "[0]" "\<lambda>i. 0"] unfolding c2 by auto
  show ?thesis using val a b by blast
qed

subsection \<open>The zero-width implicant\<close>

text \<open>
  C4. At bit width 0 with on-set \<open>{0}\<close> and an SOP file of one empty line, the file is
  read as the single empty implicant, which is valid and for which the enumerator yields
  the minterm 0; but \<open>valid_implicants\<close> drops it, so the coverage loop enumerates
  nothing: minterm 0 stays uncovered, the uncovered count is 1 and the verdict is fail.
\<close>

theorem zero_width_implicant_not_enumerated:
  "read_sop_file [''\<newline>''] 0 = [[]] \<and>
   validate_all [[]] 0 = Inr () \<and>
   iter_implicant_minterms [] 0 = Inr [0] \<and>
   valid_implicants [[]] = [] \<and>
   (\<exists>v. checks a 0 [0] [] [[]] g = Inr v \<and>
        covered_on v = {} \<and> uncovered_count v = 1 \<and> \<not> passed v) \<and>
   run \<lparr> quiet = True, summary = False, sample = 0 \<rparr> 0 [0] [] [''\<newline>''] g
     = \<lparr> stdout = [''FAIL''], stderr = [], exit_code = 0 \<rparr>"
proof -
  have r: "read_sop_file [''\<newline>''] 0 = [[]]"
    by (simp add: read_sop_file_def strip_def isspace_def)
  have val: "validate_all [[]] 0 = Inr ()"
    by (simp add: validate_implicant_def)
  have it: "iter_implicant_minterms [] 0 = Inr [0]"
    by (simp add: iter_implicant_minterms_def)
  have vi: "valid_implicants [[]] = []"
    by (simp add: valid_implicants_def strip_def)
  have cov: "loop_covered [[]] 0 [0] = {}"
    by (simp add: loop_covered_def loop_events_def vi events_of_def)
  have c: "\<exists>v. checks a 0 [0] [] [[]] g = Inr v \<and>
        covered_on v = {} \<and> uncovered_count v = 1 \<and> \<not> passed v" for a g
    using checks_result [OF val, of a "[0]" "[]" g] unfolding cov by auto
  let ?q = "\<lparr> quiet = True, summary = False, sample = 0 \<rparr>"
  obtain v where v: "checks ?q 0 [0] [] [[]] g = Inr v" "\<not> passed v"
    using c [of ?q g] by blast
  have "run ?q 0 [0] [] [''\<newline>''] g = \<lparr> stdout = [''FAIL''], stderr = [], exit_code = 0 \<rparr>"
    using v val by (simp add: run_def main_def r report_def)
  with r val it vi c show ?thesis by blast
qed

subsection \<open>Coverage counts\<close>

text \<open>
  At a bit width other than 0 every validated implicant is enumerated, so the loop's
  events are the events of the solution; at bit width 0 the loop has no event.
\<close>

lemma loop_events_nonzero_width:
  assumes "validate_all implicants n_bit = Inr ()" and "n_bit \<noteq> 0"
  shows "loop_events implicants n_bit = enumeration_events implicants n_bit"
  using valid_implicants_validated [OF assms(1)] assms(2)
  by (simp add: loop_events_def enumeration_events_def)

lemma loop_events_zero_width:
  assumes "validate_all implicants 0 = Inr ()"
  shows "loop_events implicants 0 = []"
  using valid_implicants_validated [OF assms]
  by (simp add: loop_events_def events_of_def)

lemma off_hit_count_nonzero_width:
  assumes "validate_all implicants n_bit = Inr ()" and "n_bit \<noteq> 0"
  shows "\<exists>v. checks a n_bit on_set dc_set implicants g = Inr v \<and>
           off_hit_count v = int (length (off_set_events implicants n_bit on_set dc_set))"
proof -
  have "loop_off_events implicants n_bit on_set dc_set
      = off_set_events implicants n_bit on_set dc_set"
    by (simp add: loop_off_events_def off_set_events_def loop_events_nonzero_width [OF assms])
  then show ?thesis
    using checks_result [OF assms(1), of a on_set dc_set g] by auto
qed

lemma off_hit_count_two_bit_example:
  "\<exists>v. checks a 2 [0] [] [''--''] g = Inr v \<and> off_hit_count v = 3 \<and> \<not> passed v"
proof -
  have val: "validate_all [''--''] 2 = Inr ()"
    by code_simp
  have ev: "off_set_events [''--''] 2 [0] [] = [(''--'', 2), (''--'', 1), (''--'', 3)]"
    by code_simp
  obtain v where v: "checks a 2 [0] [] [''--''] g = Inr v"
    and o: "off_hit_count v = int (length (off_set_events [''--''] 2 [0] []))"
    using off_hit_count_nonzero_width [OF val, of a "[0]" "[]" g] by auto
  obtain v' where v': "checks a 2 [0] [] [''--''] g = Inr v'"
    and p: "passed v' = (dup_count v' = 0 \<and> uncovered_count v' = 0 \<and> off_hit_count v' = 0 \<and>
                        \<not> fail_literal_product v')"
    using checks_result [OF val, of a "[0]" "[]" g] by blast
  have "v' = v"
    using v v' by simp
  then have "off_hit_count v = 3 \<and> \<not> passed v"
    using o p unfolding ev by simp
  with v show ?thesis by blast
qed

lemma uncovered_count_nonzero_width:
  assumes "validate_all implicants n_bit = Inr ()" and "n_bit \<noteq> 0" and "distinct on_set"
  shows "\<exists>v. checks a n_bit on_set dc_set implicants g = Inr v \<and>
           covered_on v = covered_terms implicants n_bit on_set \<and>
           uncovered_count v = int (card (set on_set - covered_terms implicants n_bit on_set))"
proof -
  have cov: "loop_covered implicants n_bit on_set = covered_terms implicants n_bit on_set"
    by (simp add: loop_covered_def covered_terms_def loop_events_nonzero_width [OF assms(1,2)])
  have card: "int (length (filter (\<lambda>m. m \<notin> C) on_set)) = int (card (set on_set - C))" for C
  proof -
    have "{m. m \<notin> C} \<inter> set on_set = set on_set - C"
      by auto
    then show ?thesis
      using distinct_length_filter [OF assms(3), of "\<lambda>m. m \<notin> C"] by simp
  qed
  show ?thesis
    using checks_result [OF assms(1), of a on_set dc_set g] unfolding cov card by auto
qed

lemma uncovered_count_same_for_every_limit:
  assumes "validate_all implicants n_bit = Inr ()"
  shows "\<exists>c. \<forall>a g. \<exists>v. checks a n_bit on_set dc_set implicants g = Inr v \<and>
           uncovered_count v = c"
proof -
  have "\<exists>v. checks a n_bit on_set dc_set implicants g = Inr v \<and>
      uncovered_count v
        = int (length (filter (\<lambda>m. m \<notin> loop_covered implicants n_bit on_set) on_set))" for a g
    using checks_result [OF assms, of a on_set dc_set g] by blast
  then show ?thesis by blast
qed

text \<open>
  C5. At bit width 0 with an empty on-set, an empty don't-care set and an SOP file of
  one empty line, the solution has one enumeration event, the empty implicant with
  minterm 0, and its minterm is in neither set: one off-set event. But the coverage
  loop drops the empty implicant, so the off-set hit count of the run is 0, the verdict
  is pass and \<open>--quiet\<close> prints \<open>PASS 0\<close>.
\<close>

theorem off_hit_count_misses_zero_width:
  "read_sop_file [''\<newline>''] 0 = [[]] \<and>
   validate_all [[]] 0 = Inr () \<and>
   enumeration_events [[]] 0 = [([], 0)] \<and>
   off_set_events [[]] 0 [] [] = [([], 0)] \<and>
   (\<exists>v. checks a 0 [] [] [[]] g = Inr v \<and> off_hit_count v = 0 \<and> passed v) \<and>
   run \<lparr> quiet = True, summary = False, sample = 0 \<rparr> 0 [] [] [''\<newline>''] g
     = \<lparr> stdout = [''PASS 0''], stderr = [], exit_code = 0 \<rparr>"
proof -
  have r: "read_sop_file [''\<newline>''] 0 = [[]]"
    by (simp add: read_sop_file_def strip_def isspace_def)
  have val: "validate_all [[]] 0 = Inr ()"
    by (simp add: validate_implicant_def)
  have ev: "enumeration_events [[]] 0 = [([], 0)]"
    by (simp add: enumeration_events_def events_of_def iter_implicant_minterms_def)
  have off: "off_set_events [[]] 0 [] [] = [([], 0)]"
    by (simp add: off_set_events_def ev)
  have lo: "loop_off_events [[]] 0 [] [] = []"
    by (simp add: loop_off_events_def loop_events_zero_width [OF val])
  have lc: "count_literals [[]] = 0"
    by (simp add: count_literals_def)
  have c: "\<exists>v. checks a 0 [] [] [[]] g = Inr v \<and> off_hit_count v = 0 \<and> passed v \<and>
      lit_count v = 0" for a g
    using checks_result [OF val, of a "[]" "[]" g] unfolding lo lc by auto
  let ?q = "\<lparr> quiet = True, summary = False, sample = 0 \<rparr>"
  obtain v where v: "checks ?q 0 [] [] [[]] g = Inr v" "passed v" "lit_count v = 0"
    using c [of ?q g] by blast
  have s0: "str_int 0 = ''0''"
    by code_simp
  have "run ?q 0 [] [] [''\<newline>''] g = \<lparr> stdout = [''PASS 0''], stderr = [], exit_code = 0 \<rparr>"
    using v val by (simp add: run_def main_def r report_def s0)
  with r val ev off c show ?thesis by blast
qed

text \<open>
  C6. At bit width 0 with on-set \<open>{0}\<close> and an SOP file of one empty line, the
  enumeration of the empty implicant reaches minterm 0, so no member of the on-set is
  left uncovered by the implicants' enumerations. But the coverage loop drops the empty
  implicant: the set it marks covered is empty and the uncovered count of the run is 1,
  for every sample limit and every random stream.
\<close>

theorem uncovered_count_misses_zero_width:
  "validate_all [[]] 0 = Inr () \<and> distinct [0 :: int] \<and>
   enumeration_events [[]] 0 = [([], 0)] \<and>
   covered_terms [[]] 0 [0] = {0} \<and>
   card (set [0] - covered_terms [[]] 0 [0]) = 0 \<and>
   (\<exists>v. checks a 0 [0] [] [[]] g = Inr v \<and> covered_on v = {} \<and> uncovered_count v = 1)"
proof -
  have val: "validate_all [[]] 0 = Inr ()"
    by (simp add: validate_implicant_def)
  have ev: "enumeration_events [[]] 0 = [([], 0)]"
    by (simp add: enumeration_events_def events_of_def iter_implicant_minterms_def)
  have cov: "covered_terms [[]] 0 [0] = {0}"
    by (simp add: covered_terms_def ev)
  have lcov: "loop_covered [[]] 0 [0] = {}"
    by (simp add: loop_covered_def loop_events_zero_width [OF val])
  have c: "\<exists>v. checks a 0 [0] [] [[]] g = Inr v \<and> covered_on v = {} \<and> uncovered_count v = 1"
    using checks_result [OF val, of a "[0]" "[]" g] unfolding lcov by auto
  show ?thesis
    using val ev cov c by simp
qed

subsection \<open>Invalid implicants\<close>

lemma invalid_implicant_raises:
  assumes "invalid_implicant impl n_bit"
  shows "\<exists>r. validate_implicant impl n_bit = Inl (ValueError r) \<and>
           r \<in> {NonEmptyAtZeroWidth, LengthMismatch n_bit impl, IllegalCharacter impl}"
  using assms by (auto simp: invalid_implicant_def validate_implicant_cases)

lemma valid_implicant_passes:
  assumes "\<not> invalid_implicant impl n_bit"
  shows "validate_implicant impl n_bit = Inr ()"
  using assms by (auto simp: invalid_implicant_def validate_implicant_ok)

text \<open>
  C8. If some implicant read from the SOP file is invalid (its length differs from the
  bit width, it has a character other than 0, 1 and -, or it is not empty at bit width
  0), the run raises the \<open>ValueError\<close> of \<open>validate_implicant\<close> for the first invalid
  implicant, before any check: \<open>main\<close> returns no verdict, nothing is written to
  standard output, the exception goes to the error stream and the exit status is 1.
\<close>

theorem invalid_implicant_aborts:
  assumes "\<exists>impl\<in>set (read_sop_file sop_lines n_bit). invalid_implicant impl n_bit"
  shows "\<exists>pre bad post r.
           read_sop_file sop_lines n_bit = pre @ bad # post \<and>
           (\<forall>impl\<in>set pre. \<not> invalid_implicant impl n_bit) \<and>
           invalid_implicant bad n_bit \<and>
           validate_implicant bad n_bit = Inl (ValueError r) \<and>
           r \<in> {NonEmptyAtZeroWidth, LengthMismatch n_bit bad, IllegalCharacter bad} \<and>
           main a n_bit on_set dc_set sop_lines g = Inl (ValueError r) \<and>
           run a n_bit on_set dc_set sop_lines g
             = \<lparr> stdout = [], stderr = [ValueError r], exit_code = 1 \<rparr>"
proof -
  obtain pre bad post where split: "read_sop_file sop_lines n_bit = pre @ bad # post"
    and bad: "invalid_implicant bad n_bit"
    and pre: "\<forall>impl\<in>set pre. \<not> invalid_implicant impl n_bit"
    using split_list_first_prop [OF assms] by blast
  obtain r where r: "validate_implicant bad n_bit = Inl (ValueError r)"
    and rr: "r \<in> {NonEmptyAtZeroWidth, LengthMismatch n_bit bad, IllegalCharacter bad}"
    using invalid_implicant_raises [OF bad] by blast
  have "\<forall>impl\<in>set pre. validate_implicant impl n_bit = Inr ()"
    using pre valid_implicant_passes by blast
  then have "validate_all (pre @ bad # post) n_bit = Inl (ValueError r)"
    using validate_all_first [of pre n_bit bad post] r by simp
  then have m: "main a n_bit on_set dc_set sop_lines g = Inl (ValueError r)"
    by (simp add: main_def split)
  then have "run a n_bit on_set dc_set sop_lines g
      = \<lparr> stdout = [], stderr = [ValueError r], exit_code = 1 \<rparr>"
    by (simp add: run_def)
  with split bad pre r rr m show ?thesis by blast
qed

theorem invalid_implicant_aborts_witness:
  "(\<exists>impl\<in>set (read_sop_file [''01\<newline>'', ''0x\<newline>'', ''1\<newline>''] 2). invalid_implicant impl 2) \<and>
   run \<lparr> quiet = True, summary = False, sample = 0 \<rparr> 2 [1] [] [''01\<newline>'', ''0x\<newline>'', ''1\<newline>''] (\<lambda>i. 0)
     = \<lparr> stdout = [], stderr = [ValueError (IllegalCharacter ''0x'')], exit_code = 1 \<rparr>"
proof -
  let ?a = "\<lparr> quiet = True, summary = False, sample = 0 \<rparr>"
  have rd: "read_sop_file [''01\<newline>'', ''0x\<newline>'', ''1\<newline>''] 2 = [''01'', ''0x'', ''1'']"
    by code_simp
  have ok: "\<not> invalid_implicant ''01'' 2" and b1: "invalid_implicant ''0x'' 2"
    by (simp_all add: invalid_implicant_def)
  have v: "validate_implicant ''0x'' 2 = Inl (ValueError (IllegalCharacter ''0x''))"
    by code_simp
  have ex: "\<exists>impl\<in>set (read_sop_file [''01\<newline>'', ''0x\<newline>'', ''1\<newline>''] 2). invalid_implicant impl 2"
    unfolding rd using b1 by simp
  obtain pre bad post r where s: "[''01'', ''0x'', ''1''] = pre @ bad # post"
    and pre: "\<forall>impl\<in>set pre. \<not> invalid_implicant impl 2"
    and bad: "invalid_implicant bad 2"
    and r: "validate_implicant bad 2 = Inl (ValueError r)"
    and out: "run ?a 2 [1] [] [''01\<newline>'', ''0x\<newline>'', ''1\<newline>''] (\<lambda>i. 0)
       = \<lparr> stdout = [], stderr = [ValueError r], exit_code = 1 \<rparr>"
    using invalid_implicant_aborts [OF ex, of ?a "[1]" "[]" "\<lambda>i. 0"] unfolding rd by blast
  have "pre \<noteq> []"
    using s bad ok by (cases pre) auto
  then obtain tl where p: "pre = ''01'' # tl"
    using s by (cases pre) auto
  have "tl = []"
  proof (rule ccontr)
    assume "tl \<noteq> []"
    then have "''0x'' \<in> set pre"
      using s p by (cases tl) auto
    with pre b1 show False by blast
  qed
  then have "bad = ''0x''"
    using s p by simp
  then have "r = IllegalCharacter ''0x''"
    using r v by simp
  with out ex show ?thesis by simp
qed

subsection \<open>Sampling\<close>

lemma reservoir_add_length:
  assumes "reservoir_add s k t x g = Inr (s', g')"
    and "int (length s) \<le> max 0 k" and "int (length s) < t"
  shows "int (length s') \<le> max 0 k \<and> int (length s') \<le> t"
proof -
  consider (off) "k \<le> 0" | (fill) "0 < k" "t \<le> k" | (full) "0 < k" "k < t"
    by linarith
  then show ?thesis
  proof cases
    case off
    then show ?thesis using assms by (simp add: reservoir_add_def)
  next
    case fill
    then show ?thesis using assms by (auto simp: reservoir_add_def)
  next
    case full
    have "length s' = length s"
      using assms(1) full
      by (auto simp: reservoir_add_def list_set_def Let_def split: sum.splits if_splits)
    then show ?thesis using assms(2,3) by simp
  qed
qed

lemma reservoir_add_off: "k \<le> 0 \<Longrightarrow> reservoir_add s k t x g = Inr (s, g)"
  by (simp add: reservoir_add_def)

text \<open>
  C9. After validation, each of the three sample lists of the verdict is at most as long
  as the sample limit \<open>max 0 sample\<close>, and all three are empty when the limit is 0. For a
  single call: a list within the capacity and shorter than \<open>total_seen\<close> stays within
  the capacity and within \<open>total_seen\<close>, so the bound holds after any number of calls
  made as \<open>main\<close> makes them, the counter raised by one before each; with a capacity of
  0 or less a call leaves the list as it is.
\<close>

theorem sample_lists_bounded:
  assumes "validate_all implicants n_bit = Inr ()"
  shows "(\<exists>v. checks a n_bit on_set dc_set implicants g = Inr v \<and>
            int (length (dup_sample v)) \<le> max 0 (sample a) \<and>
            int (length (off_hit_sample v)) \<le> max 0 (sample a) \<and>
            int (length (uncovered_sample v)) \<le> max 0 (sample a) \<and>
            (sample a \<le> 0 \<longrightarrow>
               dup_sample v = [] \<and> off_hit_sample v = [] \<and> uncovered_sample v = [])) \<and>
         (reservoir_add s k t x g0 = Inr (s', g1) \<and> int (length s) \<le> max 0 k \<and>
            int (length s) < t \<longrightarrow>
            int (length s') \<le> max 0 k \<and> int (length s') \<le> t) \<and>
         (k \<le> 0 \<longrightarrow> reservoir_add s k t x g0 = Inr (s, g0))"
proof -
  obtain v where v: "checks a n_bit on_set dc_set implicants g = Inr v"
    and d: "int (length (dup_sample v)) \<le> max 0 (sample a)"
    and o: "int (length (off_hit_sample v)) \<le> max 0 (sample a)"
    and u: "int (length (uncovered_sample v)) \<le> max 0 (sample a)"
    using checks_result [OF assms, of a on_set dc_set g] by blast
  have "sample a \<le> 0 \<longrightarrow> dup_sample v = [] \<and> off_hit_sample v = [] \<and> uncovered_sample v = []"
    using d o u by auto
  with v d o u have first: "\<exists>v. checks a n_bit on_set dc_set implicants g = Inr v \<and>
      int (length (dup_sample v)) \<le> max 0 (sample a) \<and>
      int (length (off_hit_sample v)) \<le> max 0 (sample a) \<and>
      int (length (uncovered_sample v)) \<le> max 0 (sample a) \<and>
      (sample a \<le> 0 \<longrightarrow>
         dup_sample v = [] \<and> off_hit_sample v = [] \<and> uncovered_sample v = [])"
    by blast
  show ?thesis
    using first reservoir_add_length [of s k t x g0 s' g1] reservoir_add_off [of k s t x g0]
    by blast
qed

theorem sample_lists_bounded_witness:
  "validate_all [''--'', ''--'', ''--''] 2 = Inr () \<and>
   (\<exists>v. checks \<lparr> quiet = False, summary = False, sample = 1 \<rparr> 2 [0] []
           [''--'', ''--'', ''--''] (\<lambda>i. 0) = Inr v \<and>
        dup_count v = 2 \<and> length (dup_sample v) \<le> 1 \<and>
        off_hit_count v = 9 \<and> length (off_hit_sample v) \<le> 1 \<and>
        length (uncovered_sample v) \<le> 1) \<and>
   reservoir_add [5 :: int] 1 2 7 (\<lambda>i. 0) = Inr ([7], \<lambda>i. 0) \<and>
   reservoir_add [5 :: int] 0 2 7 (\<lambda>i. 0) = Inr ([5], \<lambda>i. 0)"
proof -
  let ?a = "\<lparr> quiet = False, summary = False, sample = 1 \<rparr>"
  let ?g = "\<lambda>i::nat. 0::nat"
  have val: "validate_all [''--'', ''--'', ''--''] 2 = Inr ()"
    by code_simp
  have r1: "reservoir_add [5 :: int] 1 2 7 ?g = Inr ([7], ?g)"
    by (simp add: reservoir_add_def randint_def list_set_def)
  have counts: "map_sum id (\<lambda>v. (dup_count v, off_hit_count v))
      (checks ?a 2 [0] [] [''--'', ''--'', ''--''] ?g) = Inr (2, 9)"
    by code_simp
  have v0: "dup_count v = 2 \<and> off_hit_count v = 9"
    if "checks ?a 2 [0] [] [''--'', ''--'', ''--''] ?g = Inr v" for v
    using counts unfolding that by simp
  note w = sample_lists_bounded [OF val, of ?a "[0]" "[]" ?g "[5 :: int]" 1 2 7 ?g "[7]" ?g]
  have a: "\<exists>v. checks ?a 2 [0] [] [''--'', ''--'', ''--''] ?g = Inr v \<and>
        dup_count v = 2 \<and> length (dup_sample v) \<le> 1 \<and>
        off_hit_count v = 9 \<and> length (off_hit_sample v) \<le> 1 \<and>
        length (uncovered_sample v) \<le> 1"
    using w v0 by auto
  have b: "reservoir_add [5 :: int] 0 2 7 ?g = Inr ([5], ?g)"
    using sample_lists_bounded [OF val, of ?a "[0]" "[]" ?g "[5 :: int]" 0 2 7 ?g "[7]" ?g]
    by simp
  show ?thesis
    using val a r1 b by blast
qed

subsection \<open>Independence of the random stream\<close>

lemma report_no_samples:
  assumes "quiet a \<or> summary a"
    and "lit_count v' = lit_count v" and "passed v' = passed v"
  shows "report a n_bit on_set dc_set implicants v' = report a n_bit on_set dc_set implicants v"
  using assms by (auto simp: report_def header_lines_def)

text \<open>
  C10. Two runs on the same inputs and flags that differ only in the random stream: when
  the implicants are valid both reach a verdict, with the same literal count, bound
  flag, duplicate count, covered set, uncovered count, off-set hit count and pass flag,
  so that only the sample lists can differ; and with \<open>--quiet\<close> or \<open>--summary\<close> the two
  runs have the same output, error stream and exit status, valid implicants or not.
\<close>

theorem random_stream_independence:
  "(validate_all (read_sop_file sop_lines n_bit) n_bit = Inr () \<longrightarrow>
      (\<exists>v v'. checks a n_bit on_set dc_set (read_sop_file sop_lines n_bit) g = Inr v \<and>
               checks a n_bit on_set dc_set (read_sop_file sop_lines n_bit) g' = Inr v' \<and>
               lit_count v' = lit_count v \<and>
               fail_literal_product v' = fail_literal_product v \<and>
               dup_count v' = dup_count v \<and>
               covered_on v' = covered_on v \<and>
               uncovered_count v' = uncovered_count v \<and>
               off_hit_count v' = off_hit_count v \<and>
               passed v' = passed v)) \<and>
   (quiet a \<or> summary a \<longrightarrow>
      run a n_bit on_set dc_set sop_lines g = run a n_bit on_set dc_set sop_lines g')"
proof (cases "validate_all (read_sop_file sop_lines n_bit) n_bit = Inr ()")
  case False
  then obtain e where "validate_all (read_sop_file sop_lines n_bit) n_bit = Inl e"
    by (cases "validate_all (read_sop_file sop_lines n_bit) n_bit") auto
  then have "main a n_bit on_set dc_set sop_lines g = Inl e"
    "main a n_bit on_set dc_set sop_lines g' = Inl e"
    by (simp_all add: main_def)
  then have "run a n_bit on_set dc_set sop_lines g = run a n_bit on_set dc_set sop_lines g'"
    by (simp add: run_def)
  with False show ?thesis by simp
next
  case True
  let ?impls = "read_sop_file sop_lines n_bit"
  obtain v where v: "checks a n_bit on_set dc_set ?impls g = Inr v"
    and v1: "lit_count v = count_literals ?impls"
    and v2: "fail_literal_product v
       = (0 < n_bit \<and> 0 < int (length on_set) \<and>
          int (length on_set) * n_bit \<le> count_literals ?impls)"
    and v3: "dup_count v = int (length ?impls) - int (card (set ?impls))"
    and v4: "covered_on v = loop_covered ?impls n_bit on_set"
    and v5: "off_hit_count v = int (length (loop_off_events ?impls n_bit on_set dc_set))"
    and v6: "uncovered_count v
       = int (length (filter (\<lambda>m. m \<notin> loop_covered ?impls n_bit on_set) on_set))"
    and v7: "passed v = (dup_count v = 0 \<and> uncovered_count v = 0 \<and> off_hit_count v = 0 \<and>
                       \<not> fail_literal_product v)"
    using checks_result [OF True, of a on_set dc_set g] by blast
  obtain v' where v': "checks a n_bit on_set dc_set ?impls g' = Inr v'"
    and w1: "lit_count v' = count_literals ?impls"
    and w2: "fail_literal_product v'
       = (0 < n_bit \<and> 0 < int (length on_set) \<and>
          int (length on_set) * n_bit \<le> count_literals ?impls)"
    and w3: "dup_count v' = int (length ?impls) - int (card (set ?impls))"
    and w4: "covered_on v' = loop_covered ?impls n_bit on_set"
    and w5: "off_hit_count v' = int (length (loop_off_events ?impls n_bit on_set dc_set))"
    and w6: "uncovered_count v'
       = int (length (filter (\<lambda>m. m \<notin> loop_covered ?impls n_bit on_set) on_set))"
    and w7: "passed v' = (dup_count v' = 0 \<and> uncovered_count v' = 0 \<and> off_hit_count v' = 0 \<and>
                       \<not> fail_literal_product v')"
    using checks_result [OF True, of a on_set dc_set g'] by blast
  have eq: "lit_count v' = lit_count v" "fail_literal_product v' = fail_literal_product v"
    "dup_count v' = dup_count v" "covered_on v' = covered_on v"
    "uncovered_count v' = uncovered_count v" "off_hit_count v' = off_hit_count v"
    using v1 v2 v3 v4 v5 v6 w1 w2 w3 w4 w5 w6 by simp_all
  have p: "passed v' = passed v"
    unfolding v7 w7 eq ..
  have "run a n_bit on_set dc_set sop_lines g = run a n_bit on_set dc_set sop_lines g'"
    if "quiet a \<or> summary a"
    using report_no_samples [OF that eq(1) p, of n_bit on_set dc_set ?impls]
    by (simp add: run_def main_validated [OF True v] main_validated [OF True v'])
  with v v' eq p show ?thesis by blast
qed

theorem random_stream_independence_witness:
  "validate_all (read_sop_file [''--\<newline>''] 2) 2 = Inr () \<and>
   map_sum id off_hit_sample
     (checks \<lparr> quiet = False, summary = True, sample = 1 \<rparr> 2 [0] [] [''--''] (\<lambda>i. 0)) = Inr [3] \<and>
   map_sum id off_hit_sample
     (checks \<lparr> quiet = False, summary = True, sample = 1 \<rparr> 2 [0] [] [''--''] (\<lambda>i. 1)) = Inr [2] \<and>
   run \<lparr> quiet = False, summary = True, sample = 1 \<rparr> 2 [0] [] [''--\<newline>''] (\<lambda>i. 1)
     = run \<lparr> quiet = False, summary = True, sample = 1 \<rparr> 2 [0] [] [''--\<newline>''] (\<lambda>i. 0) \<and>
   run \<lparr> quiet = False, summary = True, sample = 1 \<rparr> 2 [0] [] [''--\<newline>''] (\<lambda>i. 0)
     = \<lparr> stdout = [''bit width: 2'', ''on-set size: 1'', ''dc-set size: 0'',
                   ''SOP implicants: 1'', ''SOP literals: 0'', ''result: FAIL''],
         stderr = [], exit_code = 0 \<rparr>"
proof -
  let ?a = "\<lparr> quiet = False, summary = True, sample = 1 \<rparr>"
  have val: "validate_all (read_sop_file [''--\<newline>''] 2) 2 = Inr ()"
    by code_simp
  have s0: "map_sum id off_hit_sample (checks ?a 2 [0] [] [''--''] (\<lambda>i. 0)) = Inr [3]"
    by code_simp
  have s1: "map_sum id off_hit_sample (checks ?a 2 [0] [] [''--''] (\<lambda>i. 1)) = Inr [2]"
    by code_simp
  have out: "run ?a 2 [0] [] [''--\<newline>''] (\<lambda>i. 0)
     = \<lparr> stdout = [''bit width: 2'', ''on-set size: 1'', ''dc-set size: 0'',
                   ''SOP implicants: 1'', ''SOP literals: 0'', ''result: FAIL''],
         stderr = [], exit_code = 0 \<rparr>"
    by code_simp
  have "run ?a 2 [0] [] [''--\<newline>''] (\<lambda>i. 1) = run ?a 2 [0] [] [''--\<newline>''] (\<lambda>i. 0)"
    using random_stream_independence [of "[''--\<newline>'']" 2 ?a "[0]" "[]" "\<lambda>i. 1" "\<lambda>i. 0"] val
    by simp
  with val s0 s1 out show ?thesis by blast
qed

end
